theory Spec2Isabelle
  imports Main
begin

section \<open>Tokens\<close>

text \<open>
  The embedding follows \<^verbatim>\<open>src/parser/main.cpp\<close>: the enum \<^verbatim>\<open>TokenType\<close>, the class
  \<^verbatim>\<open>Token\<close> (its three private fields are read through \<^verbatim>\<open>getType\<close>, \<^verbatim>\<open>getValue\<close> and
  \<^verbatim>\<open>isEOF\<close>), the class \<^verbatim>\<open>Lexer\<close> with its cursor, and the class \<^verbatim>\<open>Parser\<close>.
  A \<^verbatim>\<open>std::string\<close> is a list of bytes; it may hold the byte 0, which the lexer also
  uses as its end marker.
\<close>

datatype TokenType = TEXT | H1 | H2 | H3 | H4 | H5 | H6 | BOLD | ITALIC | LINK | IMAGE | LIST

datatype Token = Token (getType: TokenType) (getValue: string) (isEOF: bool)

text \<open>The two-argument constructor of the class sets \<^verbatim>\<open>is_eof\<close> to false.\<close>

abbreviation Tok :: "TokenType \<Rightarrow> string \<Rightarrow> Token" where
  "Tok t v \<equiv> Token t v False"

definition createEOF :: Token where
  "createEOF = Token TEXT [] True"

section \<open>Characters\<close>

abbreviation NUL :: char where "NUL \<equiv> CHR 0x00"
abbreviation NL :: char where "NL \<equiv> CHR 0x0A"
abbreviation BACKSLASH :: char where "BACKSLASH \<equiv> CHR 0x5C"
abbreviation DQUOTE :: char where "DQUOTE \<equiv> CHR 0x22"

text \<open>
  \<^verbatim>\<open>isspace\<close> comes from \<^verbatim>\<open>ctype.h\<close>; in the C locale it holds of space, tab, line feed,
  vertical tab, form feed and carriage return, and of no byte above 127.
\<close>

definition isspace :: "char \<Rightarrow> bool" where
  "isspace c = (c = CHR 0x20 \<or> c = CHR 0x09 \<or> c = NL \<or> c = CHR 0x0B \<or> c = CHR 0x0C \<or> c = CHR 0x0D)"

definition is_markdown_char :: "char \<Rightarrow> bool" where
  "is_markdown_char c = (c = CHR ''#'' \<or> c = CHR ''*'' \<or> c = CHR ''['' \<or> c = CHR ''!'' \<or> c = CHR ''-'')"

section \<open>The lexer's cursor\<close>

text \<open>
  The fields of \<^verbatim>\<open>Lexer\<close>: \<^verbatim>\<open>text\<close>, \<^verbatim>\<open>pos\<close> (a \<^verbatim>\<open>size_t\<close>, never beyond the length of
  the text by more than one step per call, so a natural number) and \<^verbatim>\<open>current_char\<close>.
\<close>

record Lexer =
  lx_text :: string
  pos :: nat
  current_char :: char

definition Lexer_new :: "string \<Rightarrow> Lexer" where
  "Lexer_new t = \<lparr>lx_text = t, pos = 0, current_char = (if t = [] then NUL else t ! 0)\<rparr>"

definition advance :: "Lexer \<Rightarrow> Lexer" where
  "advance lx =
     (let p = pos lx + 1 in
      if p \<ge> length (lx_text lx) then lx\<lparr>pos := p, current_char := NUL\<rparr>
      else lx\<lparr>pos := p, current_char := lx_text lx ! p\<rparr>)"

definition peek :: "Lexer \<Rightarrow> char" where
  "peek lx =
     (let peek_pos = pos lx + 1 in
      if peek_pos \<ge> length (lx_text lx) then NUL else lx_text lx ! peek_pos)"

text \<open>
  Every loop of the lexer calls \<^verbatim>\<open>advance\<close> only while \<^verbatim>\<open>current_char\<close> is not 0; the
  number of bytes left, plus one while the current byte is not 0, then goes down.
\<close>

definition left :: "Lexer \<Rightarrow> nat" where
  "left lx = (length (lx_text lx) - pos lx) + (if current_char lx = NUL then 0 else 1)"

lemma left_advance_less: "current_char lx \<noteq> NUL \<Longrightarrow> left (advance lx) < left lx"
  by (auto simp: left_def advance_def Let_def)

lemma left_advance_le: "left (advance lx) \<le> left lx"
  by (auto simp: left_def advance_def Let_def)

lemma isspace_NUL [simp]: "\<not> isspace NUL"
  by (simp add: isspace_def)

section \<open>The handlers\<close>

function collect_until_loop :: "char \<Rightarrow> Lexer \<Rightarrow> string \<Rightarrow> string \<times> Lexer" where
  "collect_until_loop delimiter lx result =
     (if current_char lx \<noteq> NUL \<and> current_char lx \<noteq> delimiter \<and> current_char lx \<noteq> NL
      then collect_until_loop delimiter (advance lx) (result @ [current_char lx])
      else (result, lx))"
  by pat_completeness auto
termination
  by (relation "measure (\<lambda>(d, lx, r). left lx)") (auto simp: left_advance_less)

definition collect_until :: "char \<Rightarrow> bool \<Rightarrow> Lexer \<Rightarrow> string \<times> Lexer" where
  "collect_until delimiter include_delimiter lx =
     (case collect_until_loop delimiter lx [] of (result, lx1) \<Rightarrow>
        if include_delimiter \<and> current_char lx1 = delimiter
        then (result @ [current_char lx1], advance lx1)
        else (result, lx1))"

text \<open>\<^verbatim>\<open>if (current_char == '\n') advance();\<close>\<close>

definition skip_line_end :: "Lexer \<Rightarrow> Lexer" where
  "skip_line_end lx = (if current_char lx = NL then advance lx else lx)"

function count_hashes :: "Lexer \<Rightarrow> int \<Rightarrow> int \<times> Lexer" where
  "count_hashes lx level =
     (if current_char lx = CHR ''#'' \<and> level < 6
      then count_hashes (advance lx) (level + 1)
      else (level, lx))"
  by pat_completeness auto
termination
  by (relation "measure (\<lambda>(lx, l). left lx)") (auto simp: left_advance_less)

function skip_inline_space :: "Lexer \<Rightarrow> Lexer" where
  "skip_inline_space lx =
     (if isspace (current_char lx) \<and> current_char lx \<noteq> NL
      then skip_inline_space (advance lx)
      else lx)"
  by pat_completeness auto
termination
proof (relation "measure left")
  show "wf (measure left)" by simp
next
  fix lx :: Lexer
  assume "isspace (current_char lx) \<and> current_char lx \<noteq> NL"
  then have "current_char lx \<noteq> NUL" by auto
  then show "(advance lx, lx) \<in> measure left" by (simp add: left_advance_less)
qed

definition handle_heading :: "Lexer \<Rightarrow> Token \<times> Lexer" where
  "handle_heading lx0 =
     (case count_hashes (advance lx0) 1 of (level, lx) \<Rightarrow>
        if \<not> isspace (current_char lx) then
          (case collect_until NL False lx of (rest, lx1) \<Rightarrow>
             (Tok TEXT (replicate (nat level) (CHR ''#'') @ rest), skip_line_end lx1))
        else
          (case collect_until NL False (skip_inline_space lx) of (content, lx1) \<Rightarrow>
             let lx2 = skip_line_end lx1 in
             if level = 1 then (Tok H1 content, lx2)
             else if level = 2 then (Tok H2 content, lx2)
             else if level = 3 then (Tok H3 content, lx2)
             else if level = 4 then (Tok H4 content, lx2)
             else if level = 5 then (Tok H5 content, lx2)
             else if level = 6 then (Tok H6 content, lx2)
             else (Tok TEXT (replicate (nat level) (CHR ''#'') @ content), lx2)))"

function italic_loop :: "Lexer \<Rightarrow> string \<Rightarrow> Token \<times> Lexer" where
  "italic_loop lx content =
     (if current_char lx \<noteq> NUL \<and> current_char lx \<noteq> NL then
        (if current_char lx = CHR ''*'' then (Tok ITALIC content, advance lx)
         else italic_loop (advance lx) (content @ [current_char lx]))
      else (Tok TEXT (''*'' @ content), lx))"
  by pat_completeness auto
termination
  by (relation "measure (\<lambda>(lx, c). left lx)") (auto simp: left_advance_less)

definition handle_emphasis :: "Lexer \<Rightarrow> Token \<times> Lexer" where
  "handle_emphasis lx0 =
     (let lx = advance lx0 in
      if current_char lx = CHR ''*'' then
        (case collect_until (CHR ''*'') False (advance lx) of (content, lx1) \<Rightarrow>
           if current_char lx1 = CHR ''*'' \<and> peek lx1 = CHR ''*''
           then (Tok BOLD content, advance (advance lx1))
           else (Tok TEXT (''**'' @ content @ (if current_char lx1 = CHR ''*'' then ''*'' else [])), lx1))
      else italic_loop lx [])"

text \<open>
  \<^verbatim>\<open>bracket_count\<close> is an \<^verbatim>\<open>int\<close>; it never exceeds the number of bytes read by more
  than one, and is taken here without a bound.
\<close>

function link_loop :: "Lexer \<Rightarrow> string \<Rightarrow> int \<Rightarrow> string \<times> int \<times> Lexer" where
  "link_loop lx ltext bracket_count =
     (if current_char lx \<noteq> NUL then
        (if current_char lx = BACKSLASH \<and> peek lx = CHR ''[''
         then link_loop (advance (advance lx)) (ltext @ ''['') bracket_count
         else if current_char lx = CHR ''[''
         then link_loop (advance lx) (ltext @ [current_char lx]) (bracket_count + 1)
         else if current_char lx = CHR '']''
         then (if bracket_count - 1 = 0 then (ltext, bracket_count - 1, advance lx)
               else link_loop (advance lx) (ltext @ [current_char lx]) (bracket_count - 1))
         else link_loop (advance lx) (ltext @ [current_char lx]) bracket_count)
      else (ltext, bracket_count, lx))"
  by pat_completeness auto
termination
proof (relation "measure (\<lambda>(lx, t, b). left lx)", goal_cases)
  case 1
  show ?case by simp
next
  case (2 lx ltext bracket_count)
  have "left (advance (advance lx)) \<le> left (advance lx)" by (rule left_advance_le)
  also have "\<dots> < left lx" using 2 by (simp add: left_advance_less)
  finally show ?case by simp
qed (auto simp: left_advance_less)

definition handle_link :: "Lexer \<Rightarrow> Token \<times> Lexer" where
  "handle_link lx0 =
     (case link_loop (advance lx0) [] 1 of (ltext, bracket_count, lx) \<Rightarrow>
        if bracket_count > 0 then (Tok TEXT (''['' @ ltext), lx)
        else if current_char lx \<noteq> CHR ''('' then (Tok TEXT (''['' @ ltext @ '']''), lx)
        else
          (case collect_until (CHR '')'') False (advance lx) of (url, lx1) \<Rightarrow>
             if current_char lx1 \<noteq> CHR '')'' then (Tok TEXT (''['' @ ltext @ '']('' @ url), lx1)
             else (Tok LINK (ltext @ ''|'' @ url), advance lx1)))"

definition handle_image :: "Lexer \<Rightarrow> Token \<times> Lexer" where
  "handle_image lx0 =
     (let lx = advance lx0 in
      if current_char lx \<noteq> CHR ''['' then (Tok TEXT ''!'', lx)
      else
        (case handle_link lx of (linkToken, lx1) \<Rightarrow>
           if getType linkToken = LINK then (Tok IMAGE (getValue linkToken), lx1)
           else (Tok TEXT (''!'' @ getValue linkToken), lx1)))"

definition handle_list :: "Lexer \<Rightarrow> Token \<times> Lexer" where
  "handle_list lx0 =
     (let lx = advance lx0 in
      if \<not> isspace (current_char lx) then
        (case collect_until NL False lx of (rest, lx1) \<Rightarrow>
           (Tok TEXT (''-'' @ rest), skip_line_end lx1))
      else
        (case collect_until NL False (advance lx) of (content, lx1) \<Rightarrow>
           (Tok LIST content, skip_line_end lx1)))"

section \<open>The next token\<close>

text \<open>
  The loop that skips newlines leaves the function with the end marker when the input
  ends inside it: the flag of the result says so.
\<close>

function skip_newlines :: "Lexer \<Rightarrow> bool \<times> Lexer" where
  "skip_newlines lx =
     (if current_char lx = NL then
        (let lx1 = advance lx in
         if current_char lx1 = NUL then (True, lx1) else skip_newlines lx1)
      else (False, lx))"
  by pat_completeness auto
termination
  by (relation "measure left") (auto simp: left_advance_less)

function text_loop :: "Lexer \<Rightarrow> string \<Rightarrow> string \<times> Lexer" where
  "text_loop lx text_content =
     (if current_char lx \<noteq> NUL \<and> \<not> is_markdown_char (current_char lx) then
        (if current_char lx = NL \<and> peek lx = NL then (text_content, lx)
         else text_loop (advance lx) (text_content @ [current_char lx]))
      else (text_content, lx))"
  by pat_completeness auto
termination
  by (relation "measure (\<lambda>(lx, c). left lx)") (auto simp: left_advance_less)

function trim_newlines :: "string \<Rightarrow> string" where
  "trim_newlines text_content =
     (if text_content \<noteq> [] \<and> last text_content = NL
      then trim_newlines (butlast text_content)
      else text_content)"
  by pat_completeness auto
termination
  by (relation "measure length") auto

definition get_next_token :: "Lexer \<Rightarrow> Token \<times> Lexer" where
  "get_next_token lx0 =
     (if current_char lx0 = NUL then (createEOF, lx0)
      else
        (case skip_newlines lx0 of (at_end, lx) \<Rightarrow>
           if at_end then (createEOF, lx)
           else if current_char lx = CHR ''#'' then handle_heading lx
           else if current_char lx = CHR ''*'' then handle_emphasis lx
           else if current_char lx = CHR ''['' then handle_link lx
           else if current_char lx = CHR ''!'' then handle_image lx
           else if current_char lx = CHR ''-'' then handle_list lx
           else
             (case text_loop lx [] of (text_content, lx1) \<Rightarrow>
                (Tok TEXT (trim_newlines text_content), lx1))))"

section \<open>The parser\<close>

definition isInlineElement :: "TokenType \<Rightarrow> bool" where
  "isInlineElement t = (t = BOLD \<or> t = ITALIC \<or> t = LINK \<or> t = IMAGE)"

definition isBlockElement :: "TokenType \<Rightarrow> bool" where
  "isBlockElement t = (t = H1 \<or> t = H2 \<or> t = H3 \<or> t = H4 \<or> t = H5 \<or> t = H6 \<or> t = LIST)"

primrec escapeHtml :: "string \<Rightarrow> string" where
  "escapeHtml [] = []"
| "escapeHtml (c # cs) =
     (if c = CHR ''<'' then ''&lt;''
      else if c = CHR ''>'' then ''&gt;''
      else if c = CHR ''&'' then ''&amp;''
      else if c = DQUOTE then ''&quot;''
      else [c]) @ escapeHtml cs"

text \<open>
  \<^verbatim>\<open>std::string::find\<close> gives the first index of the byte, or \<^verbatim>\<open>npos\<close> (here \<open>None\<close>).
  \<^verbatim>\<open>std::string::substr\<close> throws \<^verbatim>\<open>std::out_of_range\<close> when its start lies beyond the
  end of the string, and a count of \<^verbatim>\<open>npos\<close> takes all that is left.  \<^verbatim>\<open>sep + 1\<close>
  wraps to 0 when \<^verbatim>\<open>sep\<close> is \<^verbatim>\<open>npos\<close>, the largest \<^verbatim>\<open>size_t\<close>.
\<close>

datatype error = out_of_range

fun find_char :: "string \<Rightarrow> char \<Rightarrow> nat option" where
  "find_char [] c = None"
| "find_char (x # xs) c =
     (if x = c then Some 0
      else (case find_char xs c of None \<Rightarrow> None | Some k \<Rightarrow> Some (Suc k)))"

definition substr :: "string \<Rightarrow> nat \<Rightarrow> nat option \<Rightarrow> error + string" where
  "substr s start count =
     (if start > length s then Inl out_of_range
      else Inr (case count of None \<Rightarrow> drop start s | Some n \<Rightarrow> take n (drop start s)))"

definition npos_plus_1 :: "nat option \<Rightarrow> nat" where
  "npos_plus_1 sep = (case sep of None \<Rightarrow> 0 | Some k \<Rightarrow> k + 1)"

definition tokenToHtml :: "Token \<Rightarrow> error + string" where
  "tokenToHtml token =
     (let content = escapeHtml (getValue token) in
      case getType token of
        TEXT \<Rightarrow> Inr content
      | H1 \<Rightarrow> Inr (''<h1>'' @ content @ ''</h1>'' @ [NL])
      | H2 \<Rightarrow> Inr (''<h2>'' @ content @ ''</h2>'' @ [NL])
      | H3 \<Rightarrow> Inr (''<h3>'' @ content @ ''</h3>'' @ [NL])
      | H4 \<Rightarrow> Inr (''<h4>'' @ content @ ''</h4>'' @ [NL])
      | H5 \<Rightarrow> Inr (''<h5>'' @ content @ ''</h5>'' @ [NL])
      | H6 \<Rightarrow> Inr (''<h6>'' @ content @ ''</h6>'' @ [NL])
      | BOLD \<Rightarrow> Inr (''<strong>'' @ content @ ''</strong>'')
      | ITALIC \<Rightarrow> Inr (''<em>'' @ content @ ''</em>'')
      | LIST \<Rightarrow> Inr (''<li>'' @ content @ ''</li>'' @ [NL])
      | LINK \<Rightarrow>
          (let sep = find_char content (CHR ''|'') in
           case substr content 0 sep of Inl e \<Rightarrow> Inl e | Inr ltext \<Rightarrow>
            (case substr content (npos_plus_1 sep) None of Inl e \<Rightarrow> Inl e | Inr url \<Rightarrow>
               Inr (''<a href='' @ [DQUOTE] @ url @ [DQUOTE] @ ''>'' @ ltext @ ''</a>'')))
      | IMAGE \<Rightarrow>
          (let sep = find_char content (CHR ''|'') in
           case substr content 0 sep of Inl e \<Rightarrow> Inl e | Inr alt \<Rightarrow>
            (case substr content (npos_plus_1 sep) None of Inl e \<Rightarrow> Inl e | Inr src \<Rightarrow>
               Inr (''<img src='' @ [DQUOTE] @ src @ [DQUOTE] @ '' alt='' @ [DQUOTE] @ alt @ [DQUOTE] @ ''>''))))"

text \<open>
  The loop of \<^verbatim>\<open>tokensToHtml\<close> over the index \<open>i\<close>, with the two flags and the output
  stream as its state.  \<^verbatim>\<open>tokens[i+1]\<close> is read only behind \<^verbatim>\<open>i == tokens.size()-1 ||\<close>.
\<close>

function tokensToHtml_loop :: "Token list \<Rightarrow> nat \<Rightarrow> bool \<Rightarrow> bool \<Rightarrow> string \<Rightarrow> error + string" where
  "tokensToHtml_loop tokens i inList inParagraph output =
     (if i < length tokens then
        (let token = tokens ! i;
             type = getType token;
             (output1, inParagraph1, inList1) =
               (if type = LIST then
                  (let (o1, p1) = (if inParagraph then (output @ ''</p>'' @ [NL], False)
                                   else (output, inParagraph))
                   in if \<not> inList then (o1 @ ''<ul>'' @ [NL], p1, True) else (o1, p1, inList))
                else if inList then (output @ ''</ul>'' @ [NL], inParagraph, False)
                else (output, inParagraph, inList));
             (output2, inParagraph2) =
               (if (type = TEXT \<or> isInlineElement type) \<and> \<not> inParagraph1
                then (output1 @ ''<p>'', True)
                else if inParagraph1 \<and> isBlockElement type
                then (output1 @ ''</p>'' @ [NL], False)
                else (output1, inParagraph1))
         in case tokenToHtml token of
              Inl e \<Rightarrow> Inl e
            | Inr html \<Rightarrow>
                (let output3 = output2 @ html;
                     (output4, inParagraph4) =
                       (if inParagraph2 \<and>
                           (i = length tokens - 1 \<or> isBlockElement (getType (tokens ! (i + 1))))
                        then (output3 @ ''</p>'' @ [NL], False)
                        else (output3, inParagraph2))
                 in tokensToHtml_loop tokens (i + 1) inList1 inParagraph4 output4))
      else
        (let output1 = (if inList then output @ ''</ul>'' @ [NL] else output);
             output2 = (if inParagraph then output1 @ ''</p>'' @ [NL] else output1)
         in Inr output2))"
  by pat_completeness auto
termination
  by (relation "measure (\<lambda>(ts, i, l, p, out). length ts - i)") auto

definition tokensToHtml :: "Token list \<Rightarrow> error + string" where
  "tokensToHtml tokens = tokensToHtml_loop tokens 0 False False []"

text \<open>
  The loop of \<^verbatim>\<open>parse\<close> asks the lexer for tokens until the end marker comes.  Nothing in
  its text bounds the number of rounds, so it is a partial function: \<open>None\<close> stands for
  a run that never ends.
\<close>

partial_function (option) parse_loop :: "Lexer \<Rightarrow> Token \<Rightarrow> Token list \<Rightarrow> Token list option" where
  [code]: "parse_loop lx token tokens =
     (if \<not> isEOF token then
        (case get_next_token lx of (token1, lx1) \<Rightarrow> parse_loop lx1 token1 (tokens @ [token]))
      else Some tokens)"

definition tokenize :: "string \<Rightarrow> Token list option" where
  "tokenize markdown =
     (case get_next_token (Lexer_new markdown) of (token, lx) \<Rightarrow> parse_loop lx token [])"

definition parse :: "string \<Rightarrow> (error + string) option" where
  "parse markdown =
     (case tokenize markdown of None \<Rightarrow> None | Some tokens \<Rightarrow> Some (tokensToHtml tokens))"

section \<open>Vocabulary of the statements\<close>

text \<open>
  The definitions below are not part of the program: they name the parts of the input and
  of the output that the statements about the program speak of.
\<close>

text \<open>
  A lexer whose cursor stands between the bytes read and the bytes still to read.
  \<^verbatim>\<open>Lexer(text)\<close> starts there with nothing read, and every handler leaves the lexer in
  such a state again.
\<close>

definition cursor :: "string \<Rightarrow> string \<Rightarrow> Lexer" where
  "cursor before rest =
     \<lparr>lx_text = before @ rest, pos = length before,
      current_char = (case rest of [] \<Rightarrow> NUL | c # _ \<Rightarrow> c)\<rparr>"

text \<open>
  The bytes that \<^verbatim>\<open>collect_until(d)\<close> reads on, those over which the heading handler
  skips white space, and those that the loop for italic text reads on.
\<close>

definition in_span :: "char \<Rightarrow> char \<Rightarrow> bool" where
  "in_span d c = (c \<noteq> NUL \<and> c \<noteq> d \<and> c \<noteq> NL)"

definition inline_space :: "char \<Rightarrow> bool" where
  "inline_space c = (isspace c \<and> c \<noteq> NL)"

text \<open>The number of hashes the heading loop reads from \<open>r\<close> when it starts at \<open>level\<close>.\<close>

fun hashes_read :: "string \<Rightarrow> int \<Rightarrow> nat" where
  "hashes_read [] level = 0"
| "hashes_read (c # r) level =
     (if c = CHR ''#'' \<and> level < 6 then Suc (hashes_read r (level + 1)) else 0)"

definition in_italic :: "char \<Rightarrow> bool" where
  "in_italic c = (c \<noteq> NUL \<and> c \<noteq> NL \<and> c \<noteq> CHR ''*'')"

text \<open>The bytes the loop of the plain text run reads from \<open>r\<close>.\<close>

fun text_run :: "string \<Rightarrow> string" where
  "text_run [] = []"
| "text_run (c # r) =
     (if c = NUL \<or> is_markdown_char c then []
      else if c = NL \<and> r \<noteq> [] \<and> hd r = NL then []
      else c # text_run r)"

abbreviation is_NL :: "char \<Rightarrow> bool" where
  "is_NL \<equiv> (\<lambda>c. c = NL)"

text \<open>No two newlines in a row.\<close>

fun no_blank_line :: "string \<Rightarrow> bool" where
  "no_blank_line (c # d # r) = (\<not> (c = NL \<and> d = NL) \<and> no_blank_line (d # r))"
| "no_blank_line r = True"

text \<open>The tokens that the loop of \<^verbatim>\<open>parse\<close> still appends, given the token in hand.\<close>

definition tokens_from :: "Lexer \<Rightarrow> Token \<Rightarrow> Token list" where
  "tokens_from lx token = the (parse_loop lx token [])"

text \<open>
  What one round of the loop of \<^verbatim>\<open>tokensToHtml\<close> writes before the token (closing or
  opening the list, then opening or closing the paragraph) and after it, and the flags
  it leaves.
\<close>

definition list_piece :: "TokenType \<Rightarrow> bool \<Rightarrow> bool \<Rightarrow> string" where
  "list_piece ty inList inParagraph =
     (if ty = LIST then (if inParagraph then ''</p>'' @ [NL] else []) @ (if inList then [] else ''<ul>'' @ [NL])
      else if inList then ''</ul>'' @ [NL] else [])"

definition para_after_list :: "TokenType \<Rightarrow> bool \<Rightarrow> bool" where
  "para_after_list ty inParagraph = (if ty = LIST then False else inParagraph)"

definition para_piece :: "TokenType \<Rightarrow> bool \<Rightarrow> string" where
  "para_piece ty p1 =
     (if (ty = TEXT \<or> isInlineElement ty) \<and> \<not> p1 then ''<p>''
      else if p1 \<and> isBlockElement ty then ''</p>'' @ [NL] else [])"

definition para_at_token :: "TokenType \<Rightarrow> bool \<Rightarrow> bool" where
  "para_at_token ty p1 =
     (if (ty = TEXT \<or> isInlineElement ty) \<and> \<not> p1 then True
      else if p1 \<and> isBlockElement ty then False else p1)"

definition closes_after :: "Token list \<Rightarrow> nat \<Rightarrow> bool \<Rightarrow> bool" where
  "closes_after tokens i p2 =
     (p2 \<and> (i = length tokens - 1 \<or> isBlockElement (getType (tokens ! (i + 1)))))"

text \<open>
  \<open>reaches lx lx'\<close>: both are cursors into the same text, and \<open>lx'\<close> stands at or after
  \<open>lx\<close>.  \<open>is_cursor lx\<close>: the current byte of \<open>lx\<close> is the byte of the text at its
  position, or 0 at the end.
\<close>

definition reaches :: "Lexer \<Rightarrow> Lexer \<Rightarrow> bool" where
  "reaches lx lx' = (\<exists>b c r. lx = cursor b (c @ r) \<and> lx' = cursor (b @ c) r)"

definition is_cursor :: "Lexer \<Rightarrow> bool" where
  "is_cursor lx = (\<exists>b r. lx = cursor b r)"

text \<open>No two stars in a row.\<close>

fun no_double_star :: "string \<Rightarrow> bool" where
  "no_double_star (c # d # r) = (\<not> (c = CHR ''*'' \<and> d = CHR ''*'') \<and> no_double_star (d # r))"
| "no_double_star r = True"

text \<open>
  The payload of the Text token for \<^verbatim>\<open>**\<close> followed by \<open>body\<close> when no \<^verbatim>\<open>**\<close> closes the
  span: \<^verbatim>\<open>"**" + content + (current_char == '*' ? "*" : "")\<close>.
\<close>

definition bold_fallback_text :: "string \<Rightarrow> string" where
  "bold_fallback_text body =
     ''**'' @ takeWhile (in_span (CHR ''*'')) body @
     (if dropWhile (in_span (CHR ''*'')) body \<noteq> [] \<and> hd (dropWhile (in_span (CHR ''*'')) body) = CHR ''*''
      then ''*'' else [])"

text \<open>Every \<^verbatim>\<open><\<close> of the string is followed by a byte other than \<^verbatim>\<open>s\<close>.\<close>

fun tag_ok :: "string \<Rightarrow> bool" where
  "tag_ok [] = True"
| "tag_ok (c # cs) = ((c = CHR ''<'' \<longrightarrow> cs \<noteq> [] \<and> hd cs \<noteq> CHR ''s'') \<and> tag_ok cs)"

text \<open>
  The text of a link as the token holds it: every backslash right before a \<^verbatim>\<open>[\<close> is
  dropped.
\<close>

fun unescape :: "string \<Rightarrow> string" where
  "unescape (c # d # r) =
     (if c = BACKSLASH \<and> d = CHR ''['' then CHR ''['' # unescape r else c # unescape (d # r))"
| "unescape r = r"

text \<open>
  The bracketed text of a link, in the words of the design: a counter starts at \<open>d\<close>, goes up
  on a \<^verbatim>\<open>[\<close> that is not escaped and down on a \<^verbatim>\<open>]\<close>; the text is closed when the counter
  reaches 0, and the byte 0 ends the input.  \<open>bracket_scan r d\<close> gives the bytes read from
  \<open>r\<close>, the closing bracket among them, and the counter at the end.
\<close>

fun bracket_scan :: "string \<Rightarrow> int \<Rightarrow> string \<times> int" where
  "bracket_scan [] d = ([], d)"
| "bracket_scan (c # r) d =
     (if c = NUL then ([], d)
      else if c = BACKSLASH \<and> take 1 r = ''[''
      then (case bracket_scan (tl r) d of (p, d') \<Rightarrow> (c # CHR ''['' # p, d'))
      else if c = CHR ''['' then (case bracket_scan r (d + 1) of (p, d') \<Rightarrow> (c # p, d'))
      else if c = CHR '']''
      then (if d - 1 = 0 then ([c], 0) else (case bracket_scan r (d - 1) of (p, d') \<Rightarrow> (c # p, d')))
      else (case bracket_scan r d of (p, d') \<Rightarrow> (c # p, d')))"

text \<open>
  \<open>balanced_from d t\<close>: read at depth \<open>d\<close>, no \<^verbatim>\<open>]\<close> of \<open>t\<close> takes the depth to 0, and \<open>t\<close> ends
  at depth 1, so that a \<^verbatim>\<open>]\<close> after \<open>t\<close> closes the link text.  An escaped \<^verbatim>\<open>[\<close> does not
  count.
\<close>

fun balanced_from :: "int \<Rightarrow> string \<Rightarrow> bool" where
  "balanced_from d [] = (d = 1)"
| "balanced_from d (c # t) =
     (if c = BACKSLASH \<and> take 1 t = ''['' then balanced_from d (tl t)
      else if c = CHR ''['' then balanced_from (d + 1) t
      else if c = CHR '']'' then d \<noteq> 1 \<and> balanced_from (d - 1) t
      else balanced_from d t)"

text \<open>The text that the link handler has gathered when its loop ends.\<close>

definition bracket_text :: "string \<Rightarrow> int \<Rightarrow> string" where
  "bracket_text r d =
     unescape (if snd (bracket_scan r d) = 0 then butlast (fst (bracket_scan r d))
               else fst (bracket_scan r d))"

text \<open>
  A malformed construct, in the words of the design, for the input \<open>s\<close> that starts at the
  marker: a heading whose run of hashes is not followed by white space; a list item whose
  dash is not followed by white space; a bold span whose text is not followed by \<^verbatim>\<open>**\<close>; an
  italic span whose text is not followed by a star; a link whose brackets never balance,
  or are not followed by \<^verbatim>\<open>(\<close>, or whose address is not closed by \<^verbatim>\<open>)\<close>; an image whose
  \<^verbatim>\<open>!\<close> is not followed by \<^verbatim>\<open>[\<close> or whose link is malformed.
\<close>

definition malformed_link :: "string \<Rightarrow> bool" where
  "malformed_link r =
     (let inside = fst (bracket_scan r 1);
          after = drop (length inside) r
      in snd (bracket_scan r 1) \<noteq> 0 \<or> take 1 after \<noteq> ''('' \<or>
         take 1 (dropWhile (in_span (CHR '')'')) (drop 1 after)) \<noteq> '')'')"

definition malformed :: "string \<Rightarrow> bool" where
  "malformed s =
     (let r = drop 1 s in
      if take 1 s = ''#''
      then take 1 (drop (hashes_read r 1) r) = [] \<or> \<not> isspace (hd (drop (hashes_read r 1) r))
      else if take 1 s = ''-'' then take 1 r = [] \<or> \<not> isspace (hd r)
      else if take 2 s = ''**'' then take 2 (dropWhile (in_span (CHR ''*'')) (drop 2 s)) \<noteq> ''**''
      else if take 1 s = ''*'' then take 1 (dropWhile in_italic r) \<noteq> ''*''
      else if take 1 s = ''['' then malformed_link r
      else if take 1 s = ''!'' then take 1 r \<noteq> ''['' \<or> malformed_link (drop 2 s)
      else False)"

text \<open>The text of an unclosed bold span stops at a single star.\<close>

definition stops_at_star :: "string \<Rightarrow> bool" where
  "stops_at_star s =
     (take 2 s = ''**'' \<and> take 1 (dropWhile (in_span (CHR ''*'')) (drop 2 s)) = ''*'')"

text \<open>
  How a Text token shows the bytes \<open>consumed\<close> of a malformed construct that starts the
  input \<open>s\<close>: inside the brackets of a link every escaped \<^verbatim>\<open>[\<close> loses its backslash; the
  newline that ends a heading or list line is dropped; all other bytes are kept.
\<close>

definition unescape_inside :: "string \<Rightarrow> string \<Rightarrow> string" where
  "unescape_inside r x =
     (let n = length (fst (bracket_scan r 1)) in unescape (take n x) @ drop n x)"

definition shown :: "string \<Rightarrow> string \<Rightarrow> string" where
  "shown s consumed =
     (if take 1 s = ''['' then CHR ''['' # unescape_inside (drop 1 s) (drop 1 consumed)
      else if take 2 s = ''!['' then CHR ''!'' # CHR ''['' # unescape_inside (drop 2 s) (drop 2 consumed)
      else if (take 1 s = ''#'' \<or> take 1 s = ''-'') \<and> consumed \<noteq> [] \<and> last consumed = NL
      then butlast consumed
      else consumed)"

text \<open>
  \<open>degrades b s res\<close>: the result \<open>res\<close> of a handler that starts on the input \<open>s\<close>, after
  the text \<open>b\<close>, is a Text token that shows a non-empty prefix of \<open>s\<close>, with the cursor right
  after that prefix.
\<close>

definition degrades :: "string \<Rightarrow> string \<Rightarrow> Token \<times> Lexer \<Rightarrow> bool" where
  "degrades b s res =
     (\<exists>consumed rest. consumed \<noteq> [] \<and> s = consumed @ rest \<and>
        res = (Tok TEXT (shown s consumed), cursor (b @ consumed) rest))"

section \<open>Unfolding the loops\<close>

declare collect_until_loop.simps [simp del] count_hashes.simps [simp del]
  skip_inline_space.simps [simp del] italic_loop.simps [simp del] link_loop.simps [simp del]
  skip_newlines.simps [simp del] text_loop.simps [simp del] trim_newlines.simps [simp del]
  tokensToHtml_loop.simps [simp del]

subsection \<open>One round of each loop\<close>

lemma collect_until_loop_step:
  "current_char lx \<noteq> NUL \<Longrightarrow> current_char lx \<noteq> d \<Longrightarrow> current_char lx \<noteq> NL \<Longrightarrow>
   collect_until_loop d lx r = collect_until_loop d (advance lx) (r @ [current_char lx])"
  by (subst collect_until_loop.simps) simp

lemma collect_until_loop_stop:
  "current_char lx = NUL \<or> current_char lx = d \<or> current_char lx = NL \<Longrightarrow>
   collect_until_loop d lx r = (r, lx)"
  by (subst collect_until_loop.simps) auto

lemma count_hashes_step:
  "current_char lx = CHR ''#'' \<Longrightarrow> level < 6 \<Longrightarrow>
   count_hashes lx level = count_hashes (advance lx) (level + 1)"
  by (subst count_hashes.simps) simp

lemma count_hashes_stop:
  "current_char lx \<noteq> CHR ''#'' \<or> \<not> level < 6 \<Longrightarrow> count_hashes lx level = (level, lx)"
  by (subst count_hashes.simps) auto

lemma skip_inline_space_step:
  "isspace (current_char lx) \<Longrightarrow> current_char lx \<noteq> NL \<Longrightarrow>
   skip_inline_space lx = skip_inline_space (advance lx)"
  by (subst skip_inline_space.simps) simp

lemma skip_inline_space_stop:
  "\<not> isspace (current_char lx) \<or> current_char lx = NL \<Longrightarrow> skip_inline_space lx = lx"
  by (subst skip_inline_space.simps) auto

lemma italic_loop_step:
  "current_char lx \<noteq> NUL \<Longrightarrow> current_char lx \<noteq> NL \<Longrightarrow> current_char lx \<noteq> CHR ''*'' \<Longrightarrow>
   italic_loop lx content = italic_loop (advance lx) (content @ [current_char lx])"
  by (subst italic_loop.simps) simp

lemma italic_loop_star:
  "current_char lx = CHR ''*'' \<Longrightarrow> italic_loop lx content = (Tok ITALIC content, advance lx)"
  by (subst italic_loop.simps) simp

lemma italic_loop_stop:
  "current_char lx = NUL \<or> current_char lx = NL \<Longrightarrow>
   italic_loop lx content = (Tok TEXT (''*'' @ content), lx)"
  by (subst italic_loop.simps) auto

lemma link_loop_stop:
  "current_char lx = NUL \<Longrightarrow> link_loop lx t b = (t, b, lx)"
  by (subst link_loop.simps) simp

lemma link_loop_escape:
  "current_char lx = BACKSLASH \<Longrightarrow> peek lx = CHR ''['' \<Longrightarrow>
   link_loop lx t b = link_loop (advance (advance lx)) (t @ ''['') b"
  by (subst link_loop.simps) simp

lemma link_loop_open:
  "current_char lx = CHR ''['' \<Longrightarrow>
   link_loop lx t b = link_loop (advance lx) (t @ ''['') (b + 1)"
  by (subst link_loop.simps) simp

lemma link_loop_close_last:
  "current_char lx = CHR '']'' \<Longrightarrow> b = 1 \<Longrightarrow> link_loop lx t b = (t, 0, advance lx)"
  by (subst link_loop.simps) simp

lemma link_loop_close:
  "current_char lx = CHR '']'' \<Longrightarrow> b \<noteq> 1 \<Longrightarrow>
   link_loop lx t b = link_loop (advance lx) (t @ '']'') (b - 1)"
  by (subst link_loop.simps) simp

lemma link_loop_other:
  "current_char lx \<noteq> NUL \<Longrightarrow> \<not> (current_char lx = BACKSLASH \<and> peek lx = CHR ''['') \<Longrightarrow>
   current_char lx \<noteq> CHR ''['' \<Longrightarrow> current_char lx \<noteq> CHR '']'' \<Longrightarrow>
   link_loop lx t b = link_loop (advance lx) (t @ [current_char lx]) b"
  by (subst link_loop.simps) auto

lemma skip_newlines_stop:
  "current_char lx \<noteq> NL \<Longrightarrow> skip_newlines lx = (False, lx)"
  by (subst skip_newlines.simps) simp

lemma skip_newlines_end:
  "current_char lx = NL \<Longrightarrow> current_char (advance lx) = NUL \<Longrightarrow>
   skip_newlines lx = (True, advance lx)"
  by (subst skip_newlines.simps) (simp add: Let_def)

lemma skip_newlines_step:
  "current_char lx = NL \<Longrightarrow> current_char (advance lx) \<noteq> NUL \<Longrightarrow>
   skip_newlines lx = skip_newlines (advance lx)"
  by (subst skip_newlines.simps) (simp add: Let_def)

lemma text_loop_stop:
  "current_char lx = NUL \<or> is_markdown_char (current_char lx) \<Longrightarrow> text_loop lx c = (c, lx)"
  by (subst text_loop.simps) auto

lemma text_loop_break:
  "current_char lx = NL \<Longrightarrow> peek lx = NL \<Longrightarrow> text_loop lx c = (c, lx)"
  by (subst text_loop.simps) auto

lemma text_loop_step:
  "current_char lx \<noteq> NUL \<Longrightarrow> \<not> is_markdown_char (current_char lx) \<Longrightarrow>
   \<not> (current_char lx = NL \<and> peek lx = NL) \<Longrightarrow>
   text_loop lx c = text_loop (advance lx) (c @ [current_char lx])"
  by (subst text_loop.simps) auto

subsection \<open>No handler moves the cursor back\<close>

lemma left_collect_until_loop: "left (snd (collect_until_loop d lx r)) \<le> left lx"
proof (induction d lx r rule: collect_until_loop.induct)
  case (1 d lx r)
  show ?case
  proof (cases "current_char lx \<noteq> NUL \<and> current_char lx \<noteq> d \<and> current_char lx \<noteq> NL")
    case True
    then have "left (snd (collect_until_loop d lx r)) \<le> left (advance lx)"
      using "1.IH" by (simp add: collect_until_loop_step)
    also have "\<dots> \<le> left lx" by (rule left_advance_le)
    finally show ?thesis .
  next
    case False
    then show ?thesis by (simp add: collect_until_loop_stop)
  qed
qed

lemma left_collect_until: "left (snd (collect_until d b lx)) \<le> left lx"
proof -
  obtain r lx1 where loop: "collect_until_loop d lx [] = (r, lx1)" by (cases "collect_until_loop d lx []")
  have le1: "left lx1 \<le> left lx" using left_collect_until_loop [of d lx "[]"] loop by simp
  have "left (advance lx1) \<le> left lx1" by (rule left_advance_le)
  with le1 show ?thesis by (simp add: collect_until_def loop)
qed

lemma left_skip_line_end: "left (skip_line_end lx) \<le> left lx"
  by (simp add: skip_line_end_def left_advance_le)

lemma left_count_hashes: "left (snd (count_hashes lx l)) \<le> left lx"
proof (induction lx l rule: count_hashes.induct)
  case (1 lx level)
  show ?case
  proof (cases "current_char lx = CHR ''#'' \<and> level < 6")
    case True
    then have "left (snd (count_hashes lx level)) \<le> left (advance lx)"
      using "1.IH" by (simp add: count_hashes_step)
    also have "\<dots> \<le> left lx" by (rule left_advance_le)
    finally show ?thesis .
  next
    case False
    then show ?thesis by (simp add: count_hashes_stop)
  qed
qed

lemma left_skip_inline_space: "left (skip_inline_space lx) \<le> left lx"
proof (induction lx rule: skip_inline_space.induct)
  case (1 lx)
  show ?case
  proof (cases "isspace (current_char lx) \<and> current_char lx \<noteq> NL")
    case True
    then have "left (skip_inline_space lx) \<le> left (advance lx)"
      using "1.IH" by (simp add: skip_inline_space_step)
    also have "\<dots> \<le> left lx" by (rule left_advance_le)
    finally show ?thesis .
  next
    case False
    then show ?thesis by (simp add: skip_inline_space_stop)
  qed
qed

lemma left_italic_loop: "left (snd (italic_loop lx c)) \<le> left lx"
proof (induction lx c rule: italic_loop.induct)
  case (1 lx content)
  consider (stop) "current_char lx = NUL \<or> current_char lx = NL"
    | (star) "current_char lx = CHR ''*''"
    | (step) "current_char lx \<noteq> NUL" "current_char lx \<noteq> NL" "current_char lx \<noteq> CHR ''*''"
    by blast
  then show ?case
  proof cases
    case stop
    then show ?thesis by (simp add: italic_loop_stop)
  next
    case star
    then show ?thesis by (simp add: italic_loop_star left_advance_le)
  next
    case step
    then have "left (snd (italic_loop lx content)) \<le> left (advance lx)"
      using "1.IH" by (simp add: italic_loop_step)
    also have "\<dots> \<le> left lx" by (rule left_advance_le)
    finally show ?thesis .
  qed
qed

lemma left_link_loop: "left (snd (snd (link_loop lx t b))) \<le> left lx"
proof (induction lx t b rule: link_loop.induct)
  case (1 lx t b)
  have a1: "left (advance lx) \<le> left lx" by (rule left_advance_le)
  have a2: "left (advance (advance lx)) \<le> left lx"
    using left_advance_le [of "advance lx"] a1 by simp
  consider (stop) "current_char lx = NUL"
    | (esc) "current_char lx \<noteq> NUL" "current_char lx = BACKSLASH \<and> peek lx = CHR ''[''"
    | (opn) "current_char lx \<noteq> NUL" "\<not> (current_char lx = BACKSLASH \<and> peek lx = CHR ''['')"
        "current_char lx = CHR ''[''"
    | (cls0) "current_char lx \<noteq> NUL" "\<not> (current_char lx = BACKSLASH \<and> peek lx = CHR ''['')"
        "current_char lx \<noteq> CHR ''[''" "current_char lx = CHR '']''" "b - 1 = 0"
    | (cls) "current_char lx \<noteq> NUL" "\<not> (current_char lx = BACKSLASH \<and> peek lx = CHR ''['')"
        "current_char lx \<noteq> CHR ''[''" "current_char lx = CHR '']''" "b - 1 \<noteq> 0"
    | (oth) "current_char lx \<noteq> NUL" "\<not> (current_char lx = BACKSLASH \<and> peek lx = CHR ''['')"
        "current_char lx \<noteq> CHR ''[''" "current_char lx \<noteq> CHR '']''"
    by blast
  then show ?case
  proof cases
    case stop
    then show ?thesis by (simp add: link_loop_stop)
  next
    case esc
    then have "left (snd (snd (link_loop lx t b))) \<le> left (advance (advance lx))"
      using "1.IH"(1) by (simp add: link_loop_escape)
    with a2 show ?thesis by simp
  next
    case opn
    then have "left (snd (snd (link_loop lx t b))) \<le> left (advance lx)"
      using "1.IH"(2) by (simp add: link_loop_open)
    with a1 show ?thesis by simp
  next
    case cls0
    then show ?thesis using a1 by (simp add: link_loop_close_last)
  next
    case cls
    then have "left (snd (snd (link_loop lx t b))) \<le> left (advance lx)"
      using "1.IH"(3) by (simp add: link_loop_close)
    with a1 show ?thesis by simp
  next
    case oth
    then have "left (snd (snd (link_loop lx t b))) \<le> left (advance lx)"
      using "1.IH"(4) by (simp add: link_loop_other)
    with a1 show ?thesis by simp
  qed
qed

lemma left_text_loop: "left (snd (text_loop lx c)) \<le> left lx"
proof (induction lx c rule: text_loop.induct)
  case (1 lx c)
  consider (stop) "current_char lx = NUL \<or> is_markdown_char (current_char lx)"
    | (brk) "current_char lx \<noteq> NUL" "\<not> is_markdown_char (current_char lx)"
        "current_char lx = NL \<and> peek lx = NL"
    | (step) "current_char lx \<noteq> NUL" "\<not> is_markdown_char (current_char lx)"
        "\<not> (current_char lx = NL \<and> peek lx = NL)"
    by blast
  then show ?case
  proof cases
    case stop
    then show ?thesis by (simp add: text_loop_stop)
  next
    case brk
    then show ?thesis by (simp add: text_loop_break)
  next
    case step
    then have "left (snd (text_loop lx c)) \<le> left (advance lx)"
      using "1.IH" by (simp add: text_loop_step)
    also have "\<dots> \<le> left lx" by (rule left_advance_le)
    finally show ?thesis .
  qed
qed

lemma left_skip_newlines: "left (snd (skip_newlines lx)) \<le> left lx"
proof (induction lx rule: skip_newlines.induct)
  case (1 lx)
  consider (stop) "current_char lx \<noteq> NL"
    | (fin) "current_char lx = NL" "current_char (advance lx) = NUL"
    | (step) "current_char lx = NL" "current_char (advance lx) \<noteq> NUL"
    by blast
  then show ?case
  proof cases
    case stop
    then show ?thesis by (simp add: skip_newlines_stop)
  next
    case fin
    then show ?thesis by (simp add: skip_newlines_end left_advance_le)
  next
    case step
    then have "left (snd (skip_newlines lx)) \<le> left (advance lx)"
      using "1.IH" by (simp add: skip_newlines_step)
    also have "\<dots> \<le> left lx" by (rule left_advance_le)
    finally show ?thesis .
  qed
qed

lemma skip_newlines_stops:
  "current_char lx \<noteq> NUL \<Longrightarrow> skip_newlines lx = (False, lx1) \<Longrightarrow>
   current_char lx1 \<noteq> NUL \<and> current_char lx1 \<noteq> NL"
proof (induction lx rule: skip_newlines.induct)
  case (1 lx)
  consider (stop) "current_char lx \<noteq> NL"
    | (fin) "current_char lx = NL" "current_char (advance lx) = NUL"
    | (step) "current_char lx = NL" "current_char (advance lx) \<noteq> NUL"
    by blast
  then show ?case
  proof cases
    case stop
    then show ?thesis using "1.prems" by (simp add: skip_newlines_stop)
  next
    case fin
    then show ?thesis using "1.prems" by (simp add: skip_newlines_end)
  next
    case step
    then have "skip_newlines (advance lx) = (False, lx1)"
      using "1.prems" by (simp add: skip_newlines_step)
    with "1.IH" [OF step(1) refl step(2) step(2)] show ?thesis by simp
  qed
qed

subsection \<open>Every handler moves the cursor on\<close>

lemma left_handle_heading:
  "current_char lx \<noteq> NUL \<Longrightarrow> left (snd (handle_heading lx)) < left lx"
proof -
  assume nz: "current_char lx \<noteq> NUL"
  obtain level lx1 where ch: "count_hashes (advance lx) 1 = (level, lx1)"
    by (cases "count_hashes (advance lx) 1")
  have l1: "left lx1 < left lx"
    using left_count_hashes [of "advance lx" 1] ch left_advance_less [OF nz] by simp
  have l2: "left (skip_inline_space lx1) < left lx"
    using left_skip_inline_space [of lx1] l1 by simp
  have c1: "left (skip_line_end (snd (collect_until NL False lx1))) < left lx"
    using left_skip_line_end [of "snd (collect_until NL False lx1)"]
      left_collect_until [of NL False lx1] l1 by simp
  have c2: "left (skip_line_end (snd (collect_until NL False (skip_inline_space lx1)))) < left lx"
    using left_skip_line_end [of "snd (collect_until NL False (skip_inline_space lx1))"]
      left_collect_until [of NL False "skip_inline_space lx1"] l2 by simp
  show ?thesis
    using c1 c2 by (simp add: handle_heading_def ch Let_def case_prod_beta)
qed

lemma left_handle_emphasis:
  "current_char lx \<noteq> NUL \<Longrightarrow> left (snd (handle_emphasis lx)) < left lx"
proof -
  assume nz: "current_char lx \<noteq> NUL"
  have a1: "left (advance lx) < left lx" using nz by (rule left_advance_less)
  have a2: "left (advance (advance lx)) < left lx"
    using left_advance_le [of "advance lx"] a1 by simp
  have it: "left (snd (italic_loop (advance lx) [])) < left lx"
    using left_italic_loop [of "advance lx" "[]"] a1 by simp
  obtain content lx1 where cu: "collect_until (CHR ''*'') False (advance (advance lx)) = (content, lx1)"
    by (cases "collect_until (CHR ''*'') False (advance (advance lx))")
  have c1: "left lx1 < left lx"
    using left_collect_until [of "CHR ''*''" False "advance (advance lx)"] cu a2 by simp
  have c2: "left (advance (advance lx1)) < left lx"
    using left_advance_le [of "advance lx1"] left_advance_le [of lx1] c1 by simp
  show ?thesis
    using it c1 c2 by (simp add: handle_emphasis_def Let_def cu)
qed

lemma left_handle_link:
  "current_char lx \<noteq> NUL \<Longrightarrow> left (snd (handle_link lx)) < left lx"
proof -
  assume nz: "current_char lx \<noteq> NUL"
  have a1: "left (advance lx) < left lx" using nz by (rule left_advance_less)
  obtain t b lx1 where ll: "link_loop (advance lx) [] 1 = (t, b, lx1)"
    by (cases "link_loop (advance lx) [] 1") auto
  have l1: "left lx1 < left lx"
    using left_link_loop [of "advance lx" "[]" 1] ll a1 by simp
  obtain url lx2 where cu: "collect_until (CHR '')'') False (advance lx1) = (url, lx2)"
    by (cases "collect_until (CHR '')'') False (advance lx1)")
  have l2: "left lx2 < left lx"
    using left_collect_until [of "CHR '')''" False "advance lx1"] cu left_advance_le [of lx1] l1
    by simp
  have l3: "left (advance lx2) < left lx"
    using left_advance_le [of lx2] l2 by simp
  show ?thesis
    using l1 l2 l3 by (simp add: handle_link_def ll cu)
qed

lemma left_handle_image:
  "current_char lx \<noteq> NUL \<Longrightarrow> left (snd (handle_image lx)) < left lx"
proof -
  assume nz: "current_char lx \<noteq> NUL"
  have a1: "left (advance lx) < left lx" using nz by (rule left_advance_less)
  show ?thesis
  proof (cases "current_char (advance lx) = CHR ''[''")
    case False
    then show ?thesis using a1 by (simp add: handle_image_def Let_def)
  next
    case True
    then have "current_char (advance lx) \<noteq> NUL" by simp
    from left_handle_link [OF this] a1
    have "left (snd (handle_link (advance lx))) < left lx" by simp
    then show ?thesis using True
      by (simp add: handle_image_def Let_def case_prod_beta)
  qed
qed

lemma left_handle_list:
  "current_char lx \<noteq> NUL \<Longrightarrow> left (snd (handle_list lx)) < left lx"
proof -
  assume nz: "current_char lx \<noteq> NUL"
  have a1: "left (advance lx) < left lx" using nz by (rule left_advance_less)
  have a2: "left (advance (advance lx)) < left lx"
    using left_advance_le [of "advance lx"] a1 by simp
  have c1: "left (skip_line_end (snd (collect_until NL False (advance lx)))) < left lx"
    using left_skip_line_end [of "snd (collect_until NL False (advance lx))"]
      left_collect_until [of NL False "advance lx"] a1 by simp
  have c2: "left (skip_line_end (snd (collect_until NL False (advance (advance lx))))) < left lx"
    using left_skip_line_end [of "snd (collect_until NL False (advance (advance lx)))"]
      left_collect_until [of NL False "advance (advance lx)"] a2 by simp
  show ?thesis
    using c1 c2 by (simp add: handle_list_def Let_def case_prod_beta)
qed

lemma left_text_loop_first:
  assumes "current_char lx \<noteq> NUL" "current_char lx \<noteq> NL" "\<not> is_markdown_char (current_char lx)"
  shows "left (snd (text_loop lx [])) < left lx"
proof -
  have "text_loop lx [] = text_loop (advance lx) [current_char lx]"
    using assms by (simp add: text_loop_step)
  then have "left (snd (text_loop lx [])) \<le> left (advance lx)"
    using left_text_loop [of "advance lx" "[current_char lx]"] by simp
  also have "\<dots> < left lx" using assms(1) by (rule left_advance_less)
  finally show ?thesis .
qed

lemma isEOF_createEOF [simp]: "isEOF createEOF"
  by (simp add: createEOF_def)

lemma get_next_token_left:
  assumes "get_next_token lx = (tok, lx1)" "\<not> isEOF tok"
  shows "left lx1 < left lx"
proof -
  have nz: "current_char lx \<noteq> NUL"
    using assms by (auto simp: get_next_token_def)
  obtain at_end lx2 where sk: "skip_newlines lx = (at_end, lx2)"
    by (cases "skip_newlines lx")
  have not_end: "\<not> at_end"
    using assms nz sk by (auto simp: get_next_token_def)
  have le2: "left lx2 \<le> left lx"
    using left_skip_newlines [of lx] sk by simp
  have cur2: "current_char lx2 \<noteq> NUL" "current_char lx2 \<noteq> NL"
    using skip_newlines_stops [OF nz] sk not_end by auto
  have md: "is_markdown_char (current_char lx2) =
      (current_char lx2 = CHR ''#'' \<or> current_char lx2 = CHR ''*'' \<or> current_char lx2 = CHR ''['' \<or>
       current_char lx2 = CHR ''!'' \<or> current_char lx2 = CHR ''-'')"
    by (simp add: is_markdown_char_def)
  have "left (snd (get_next_token lx)) < left lx"
  proof -
    have h: "left (snd (handle_heading lx2)) < left lx"
      using left_handle_heading [OF cur2(1)] le2 by simp
    have e: "left (snd (handle_emphasis lx2)) < left lx"
      using left_handle_emphasis [OF cur2(1)] le2 by simp
    have l: "left (snd (handle_link lx2)) < left lx"
      using left_handle_link [OF cur2(1)] le2 by simp
    have i: "left (snd (handle_image lx2)) < left lx"
      using left_handle_image [OF cur2(1)] le2 by simp
    have s: "left (snd (handle_list lx2)) < left lx"
      using left_handle_list [OF cur2(1)] le2 by simp
    have t: "\<not> is_markdown_char (current_char lx2) \<Longrightarrow> left (snd (text_loop lx2 [])) < left lx"
      using left_text_loop_first [OF cur2] le2 by simp
    show ?thesis
      using h e l i s t nz not_end md
      by (simp add: get_next_token_def sk case_prod_beta)
  qed
  then show ?thesis using assms(1) by simp
qed

subsection \<open>The loop of parse ends\<close>

lemma parse_loop_returns: "\<exists>tokens'. parse_loop lx token tokens = Some tokens'"
proof (induction "left lx" arbitrary: lx token tokens rule: less_induct)
  case less
  show ?case
  proof (cases "isEOF token")
    case True
    then show ?thesis by (subst parse_loop.simps) simp
  next
    case False
    obtain token1 lx1 where nt: "get_next_token lx = (token1, lx1)"
      by (cases "get_next_token lx")
    have unfold: "parse_loop lx token tokens = parse_loop lx1 token1 (tokens @ [token])"
      using False nt by (subst parse_loop.simps) simp
    show ?thesis
    proof (cases "isEOF token1")
      case True
      then have "parse_loop lx1 token1 (tokens @ [token]) = Some (tokens @ [token])"
        by (subst parse_loop.simps) simp
      with unfold show ?thesis by simp
    next
      case False
      with nt have "left lx1 < left lx" by (rule get_next_token_left)
      from less [OF this] unfold show ?thesis by simp
    qed
  qed
qed

section \<open>The parser returns\<close>

lemma find_char_less: "find_char s c = Some k \<Longrightarrow> k < length s"
proof (induction s arbitrary: k)
  case Nil
  then show ?case by simp
next
  case (Cons x xs)
  then show ?case by (auto split: if_splits option.splits)
qed

lemma npos_plus_1_le: "npos_plus_1 (find_char s c) \<le> length s"
  by (cases "find_char s c") (auto simp: npos_plus_1_def dest: find_char_less)

lemma substr_returns: "start \<le> length s \<Longrightarrow> \<exists>r. substr s start count = Inr r"
  by (simp add: substr_def)

lemma tokenToHtml_returns: "\<exists>html. tokenToHtml token = Inr html"
proof -
  define content where "content = escapeHtml (getValue token)"
  define sep where "sep = find_char content (CHR ''|'')"
  obtain a where a: "substr content 0 sep = Inr a"
    using substr_returns [of 0 content sep] by auto
  obtain b where b: "substr content (npos_plus_1 sep) None = Inr b"
    using substr_returns [OF npos_plus_1_le, of content "CHR ''|''" None] by (auto simp: sep_def)
  show ?thesis
    using a b unfolding tokenToHtml_def Let_def content_def [symmetric] sep_def [symmetric]
    by (cases "getType token") simp_all
qed

lemma tokensToHtml_loop_returns:
  "\<exists>html. tokensToHtml_loop tokens i inList inParagraph out = Inr html"
proof (induction "length tokens - i" arbitrary: i inList inParagraph out rule: less_induct)
  case less
  show ?case
  proof (cases "i < length tokens")
    case False
    then show ?thesis by (subst tokensToHtml_loop.simps) (simp add: Let_def)
  next
    case True
    obtain html where h: "tokenToHtml (tokens ! i) = Inr html"
      using tokenToHtml_returns by blast
    have smaller: "length tokens - (i + 1) < length tokens - i" using True by simp
    show ?thesis
      using True h less [OF smaller]
      by (subst tokensToHtml_loop.simps) (simp add: Let_def case_prod_beta)
  qed
qed

text \<open>
  C1: for every input the loop of \<^verbatim>\<open>parse\<close> ends, no \<^verbatim>\<open>substr\<close> throws, and a complete
  string comes back; the empty input gives the empty string.
\<close>

theorem parse_total:
  "(\<exists>html. parse markdown = Some (Inr html)) \<and> parse [] = Some (Inr [])"
proof
  obtain token lx where nt: "get_next_token (Lexer_new markdown) = (token, lx)"
    by (cases "get_next_token (Lexer_new markdown)")
  obtain tokens where "parse_loop lx token [] = Some tokens"
    using parse_loop_returns by blast
  then have "tokenize markdown = Some tokens" by (simp add: tokenize_def nt)
  moreover obtain html where "tokensToHtml tokens = Inr html"
    unfolding tokensToHtml_def using tokensToHtml_loop_returns by blast
  ultimately show "\<exists>html. parse markdown = Some (Inr html)" by (simp add: parse_def)
next
  show "parse [] = Some (Inr [])" by code_simp
qed

section \<open>Escaping\<close>

lemma length_escapeHtml: "length s \<le> length (escapeHtml s)"
  by (induction s) auto

lemma escapeHtml_plain:
  "\<forall>c\<in>set s. c \<noteq> CHR ''<'' \<and> c \<noteq> CHR ''>'' \<and> c \<noteq> CHR ''&'' \<and> c \<noteq> DQUOTE \<Longrightarrow> escapeHtml s = s"
  by (induction s) auto

lemma escapeHtml_grows:
  "\<exists>c\<in>set s. c = CHR ''<'' \<or> c = CHR ''>'' \<or> c = CHR ''&'' \<or> c = DQUOTE \<Longrightarrow>
   length s < length (escapeHtml s)"
proof (induction s)
  case Nil
  then show ?case by simp
next
  case (Cons a s)
  have le: "length s \<le> length (escapeHtml s)" by (rule length_escapeHtml)
  show ?case
  proof (cases "a = CHR ''<'' \<or> a = CHR ''>'' \<or> a = CHR ''&'' \<or> a = DQUOTE")
    case True
    then show ?thesis using le by auto
  next
    case False
    with Cons.prems have "\<exists>c\<in>set s. c = CHR ''<'' \<or> c = CHR ''>'' \<or> c = CHR ''&'' \<or> c = DQUOTE"
      by auto
    from Cons.IH [OF this] show ?thesis using False by simp
  qed
qed

lemma escapeHtml_keeps_special:
  "\<exists>c\<in>set s. c = CHR ''<'' \<or> c = CHR ''>'' \<or> c = CHR ''&'' \<or> c = DQUOTE \<Longrightarrow>
   CHR ''&'' \<in> set (escapeHtml s)"
  by (induction s) auto

text \<open>
  C3, as stated: escaping an escaped string changes nothing.  The single pass of
  \<^verbatim>\<open>escapeHtml\<close> knows no entities, so the \<^verbatim>\<open>&\<close> of \<^verbatim>\<open>&amp;\<close> is escaped again.
\<close>

theorem escapeHtml_twice_counterexample:
  "escapeHtml (escapeHtml ''&'') \<noteq> escapeHtml ''&''"
  by simp

text \<open>
  C3, amended: escaping twice equals escaping once exactly for the strings that hold
  none of the four special characters; on those strings escaping is the identity.
\<close>

theorem escapeHtml_twice_iff:
  "(escapeHtml (escapeHtml s) = escapeHtml s) =
     (\<forall>c\<in>set s. c \<noteq> CHR ''<'' \<and> c \<noteq> CHR ''>'' \<and> c \<noteq> CHR ''&'' \<and> c \<noteq> DQUOTE)"
proof
  assume eq: "escapeHtml (escapeHtml s) = escapeHtml s"
  show "\<forall>c\<in>set s. c \<noteq> CHR ''<'' \<and> c \<noteq> CHR ''>'' \<and> c \<noteq> CHR ''&'' \<and> c \<noteq> DQUOTE"
  proof (rule ccontr)
    assume "\<not> (\<forall>c\<in>set s. c \<noteq> CHR ''<'' \<and> c \<noteq> CHR ''>'' \<and> c \<noteq> CHR ''&'' \<and> c \<noteq> DQUOTE)"
    then have special: "\<exists>c\<in>set s. c = CHR ''<'' \<or> c = CHR ''>'' \<or> c = CHR ''&'' \<or> c = DQUOTE"
      by blast
    have "CHR ''&'' \<in> set (escapeHtml s)"
      using special by (rule escapeHtml_keeps_special)
    then have "\<exists>c\<in>set (escapeHtml s). c = CHR ''<'' \<or> c = CHR ''>'' \<or> c = CHR ''&'' \<or> c = DQUOTE"
      by blast
    then have "length (escapeHtml s) < length (escapeHtml (escapeHtml s))"
      by (rule escapeHtml_grows)
    with eq show False by simp
  qed
next
  assume plain: "\<forall>c\<in>set s. c \<noteq> CHR ''<'' \<and> c \<noteq> CHR ''>'' \<and> c \<noteq> CHR ''&'' \<and> c \<noteq> DQUOTE"
  then have "escapeHtml s = s" by (rule escapeHtml_plain)
  then show "escapeHtml (escapeHtml s) = escapeHtml s" by simp
qed

theorem escapeHtml_twice_iff_witness:
  "escapeHtml (escapeHtml ''a b'') = escapeHtml ''a b'' \<and>
   escapeHtml (escapeHtml ''a<b'') \<noteq> escapeHtml ''a<b''"
  using escapeHtml_twice_iff [of "''a b''"] escapeHtml_twice_iff [of "''a<b''"]
  by simp

section \<open>Worked inputs\<close>

text \<open>
  C5, as stated: after the Italic token \<^verbatim>\<open>outer \<close> the rest of
  \<^verbatim>\<open>*outer **inner** outer*\<close> is lexed as Text.  The token that follows is not Text.
\<close>

theorem nested_emphasis_counterexample:
  "hd (the (tokenize ''*outer **inner** outer*'')) = Tok ITALIC ''outer '' \<and>
   getType (the (tokenize ''*outer **inner** outer*'') ! 1) \<noteq> TEXT"
  by code_simp

text \<open>
  C5, amended: lexing \<^verbatim>\<open>*outer **inner** outer*\<close> gives three Italic tokens, with the
  contents \<^verbatim>\<open>outer \<close>, \<^verbatim>\<open>inner\<close> and \<^verbatim>\<open> outer\<close>: each later star opens an italic
  span of its own, closed by the next star.
\<close>

theorem nested_emphasis_tokens:
  "tokenize ''*outer **inner** outer*'' =
     Some [Tok ITALIC ''outer '', Tok ITALIC ''inner'', Tok ITALIC '' outer'']"
  by code_simp

text \<open>
  C6: the document with a heading, a paragraph that holds a bold span, and a list item
  renders to the heading, the paragraph and the list, each closed by a newline.
\<close>

theorem mixed_document:
  "parse (''# Title'' @ [NL] @ ''Some **bold** text.'' @ [NL] @ ''- item'') =
     Some (Inr (''<h1>Title</h1>'' @ [NL] @ ''<p>Some <strong>bold</strong> text.</p>'' @ [NL] @
                ''<ul>'' @ [NL] @ ''<li>item</li>'' @ [NL] @ ''</ul>'' @ [NL]))"
  by code_simp

section \<open>The cursor as a split of the input\<close>

lemma Lexer_new_cursor: "Lexer_new t = cursor [] t"
  by (cases t) (simp_all add: Lexer_new_def cursor_def)

lemma current_char_cursor_Nil [simp]: "current_char (cursor b []) = NUL"
  by (simp add: cursor_def)

lemma current_char_cursor_Cons [simp]: "current_char (cursor b (c # r)) = c"
  by (simp add: cursor_def)

lemma current_char_cursor: "current_char (cursor b r) = (case r of [] \<Rightarrow> NUL | c # _ \<Rightarrow> c)"
  by (simp add: cursor_def)

lemma lx_text_cursor [simp]: "lx_text (cursor b r) = b @ r"
  by (simp add: cursor_def)

lemma pos_cursor [simp]: "pos (cursor b r) = length b"
  by (simp add: cursor_def)

lemma advance_cursor [simp]: "advance (cursor b (c # r)) = cursor (b @ [c]) r"
  by (cases r) (simp_all add: advance_def cursor_def Let_def nth_append)

lemma peek_cursor [simp]: "peek (cursor b (c # r)) = current_char (cursor (b @ [c]) r)"
  by (cases r) (simp_all add: peek_def cursor_def Let_def nth_append)

lemma cursor_eq_iff: "cursor b r = cursor b' r' \<longleftrightarrow> b = b' \<and> r = r'"
proof
  assume eq: "cursor b r = cursor b' r'"
  then have "lx_text (cursor b r) = lx_text (cursor b' r')" "pos (cursor b r) = pos (cursor b' r')"
    by simp_all
  then have "b @ r = b' @ r'" "length b = length b'" by simp_all
  then show "b = b' \<and> r = r'" by simp
qed simp

subsection \<open>The loops on a split input\<close>

lemma collect_until_loop_cursor:
  "collect_until_loop d (cursor b r) acc =
     (acc @ takeWhile (in_span d) r, cursor (b @ takeWhile (in_span d) r) (dropWhile (in_span d) r))"
proof (induction r arbitrary: b acc)
  case Nil
  then show ?case by (simp add: collect_until_loop_stop)
next
  case (Cons c r)
  show ?case
  proof (cases "in_span d c")
    case True
    then have "collect_until_loop d (cursor b (c # r)) acc =
        collect_until_loop d (cursor (b @ [c]) r) (acc @ [c])"
      by (simp add: collect_until_loop_step in_span_def)
    then show ?thesis using True Cons.IH [of "b @ [c]" "acc @ [c]"] by simp
  next
    case False
    then show ?thesis by (auto simp: collect_until_loop_stop in_span_def)
  qed
qed

lemma collect_until_cursor:
  "collect_until d False (cursor b r) =
     (takeWhile (in_span d) r, cursor (b @ takeWhile (in_span d) r) (dropWhile (in_span d) r))"
  by (simp add: collect_until_def collect_until_loop_cursor)

lemma skip_line_end_cursor_NL [simp]: "skip_line_end (cursor b (NL # r)) = cursor (b @ [NL]) r"
  by (simp add: skip_line_end_def)

lemma skip_line_end_cursor_other:
  "r = [] \<or> hd r \<noteq> NL \<Longrightarrow> skip_line_end (cursor b r) = cursor b r"
  by (cases r) (auto simp: skip_line_end_def)

lemma skip_inline_space_cursor:
  "skip_inline_space (cursor b r) =
     cursor (b @ takeWhile inline_space r) (dropWhile inline_space r)"
proof (induction r arbitrary: b)
  case Nil
  then show ?case by (simp add: skip_inline_space_stop)
next
  case (Cons c r)
  show ?case
  proof (cases "inline_space c")
    case True
    then have "skip_inline_space (cursor b (c # r)) = skip_inline_space (cursor (b @ [c]) r)"
      by (simp add: skip_inline_space_step inline_space_def)
    then show ?thesis using True Cons.IH [of "b @ [c]"] by simp
  next
    case False
    then show ?thesis by (auto simp: skip_inline_space_stop inline_space_def)
  qed
qed

lemma count_hashes_cursor:
  "count_hashes (cursor b r) level =
     (level + int (hashes_read r level),
      cursor (b @ take (hashes_read r level) r) (drop (hashes_read r level) r))"
proof (induction r arbitrary: b level)
  case Nil
  then show ?case by (simp add: count_hashes_stop)
next
  case (Cons c r)
  show ?case
  proof (cases "c = CHR ''#'' \<and> level < 6")
    case True
    then have "count_hashes (cursor b (c # r)) level = count_hashes (cursor (b @ [c]) r) (level + 1)"
      by (simp add: count_hashes_step)
    then show ?thesis using True Cons.IH [of "b @ [c]" "level + 1"] by simp
  next
    case False
    then show ?thesis by (auto simp: count_hashes_stop)
  qed
qed

lemma hashes_read_replicate: "take (hashes_read r level) r = replicate (hashes_read r level) (CHR ''#'')"
  by (induction r level rule: hashes_read.induct) auto

lemma hashes_read_le: "hashes_read r level \<le> length r"
  by (induction r level rule: hashes_read.induct) auto

lemma italic_loop_cursor:
  "italic_loop (cursor b r) acc =
     (if dropWhile in_italic r \<noteq> [] \<and> hd (dropWhile in_italic r) = CHR ''*''
      then (Tok ITALIC (acc @ takeWhile in_italic r),
            cursor (b @ takeWhile in_italic r @ ''*'') (tl (dropWhile in_italic r)))
      else (Tok TEXT (''*'' @ acc @ takeWhile in_italic r),
            cursor (b @ takeWhile in_italic r) (dropWhile in_italic r)))"
proof (induction r arbitrary: b acc)
  case Nil
  then show ?case by (simp add: italic_loop_stop)
next
  case (Cons c r)
  show ?case
  proof (cases "in_italic c")
    case True
    then have "italic_loop (cursor b (c # r)) acc = italic_loop (cursor (b @ [c]) r) (acc @ [c])"
      by (simp add: italic_loop_step in_italic_def)
    then show ?thesis using True Cons.IH [of "b @ [c]" "acc @ [c]"] by simp
  next
    case False
    then show ?thesis
      by (auto simp: italic_loop_stop italic_loop_star in_italic_def)
  qed
qed

lemma skip_newlines_cursor:
  "skip_newlines (cursor b r) =
     (takeWhile (\<lambda>c. c = NL) r \<noteq> [] \<and>
        (dropWhile (\<lambda>c. c = NL) r = [] \<or> hd (dropWhile (\<lambda>c. c = NL) r) = NUL),
      cursor (b @ takeWhile (\<lambda>c. c = NL) r) (dropWhile (\<lambda>c. c = NL) r))"
proof (induction r arbitrary: b)
  case Nil
  then show ?case by (simp add: skip_newlines_stop)
next
  case (Cons c r)
  show ?case
  proof (cases "c = NL")
    case False
    then show ?thesis by (simp add: skip_newlines_stop)
  next
    case True
    note nl = this
    show ?thesis
    proof (cases "current_char (cursor (b @ [c]) r) = NUL")
      case True
      then have "skip_newlines (cursor b (c # r)) = (True, cursor (b @ [c]) r)"
        using nl by (simp add: skip_newlines_end)
      moreover have "r = [] \<or> hd r = NUL" using True by (cases r) auto
      ultimately show ?thesis using nl by (cases r) auto
    next
      case False
      then have "skip_newlines (cursor b (c # r)) = skip_newlines (cursor (b @ [c]) r)"
        using nl by (simp add: skip_newlines_step)
      then show ?thesis using nl False Cons.IH [of "b @ [c]"] by (cases r) auto
    qed
  qed
qed

lemma text_loop_cursor:
  "text_loop (cursor b r) acc =
     (acc @ text_run r, cursor (b @ text_run r) (drop (length (text_run r)) r))"
proof (induction r arbitrary: b acc)
  case Nil
  then show ?case by (simp add: text_loop_stop)
next
  case (Cons c r)
  consider (stop) "c = NUL \<or> is_markdown_char c"
    | (brk) "c \<noteq> NUL" "\<not> is_markdown_char c" "c = NL \<and> r \<noteq> [] \<and> hd r = NL"
    | (step) "c \<noteq> NUL" "\<not> is_markdown_char c" "\<not> (c = NL \<and> r \<noteq> [] \<and> hd r = NL)"
    by blast
  then show ?case
  proof cases
    case stop
    then show ?thesis by (auto simp: text_loop_stop)
  next
    case brk
    then have "peek (cursor b (c # r)) = NL" by (cases r) auto
    then show ?thesis using brk by (simp add: text_loop_break)
  next
    case step
    then have "\<not> (c = NL \<and> peek (cursor b (c # r)) = NL)" by (cases r) auto
    then have "text_loop (cursor b (c # r)) acc = text_loop (cursor (b @ [c]) r) (acc @ [c])"
      using step by (simp add: text_loop_step)
    then show ?thesis using step Cons.IH [of "b @ [c]" "acc @ [c]"] by simp
  qed
qed

lemma trim_newlines_snoc_NL: "trim_newlines (s @ [NL]) = trim_newlines s"
  by (subst trim_newlines.simps) simp

lemma trim_newlines_keep: "s = [] \<or> last s \<noteq> NL \<Longrightarrow> trim_newlines s = s"
  by (subst trim_newlines.simps) auto

section \<open>The next token on a split input\<close>

lemma get_next_token_end:
  "r = [] \<or> hd r = NUL \<Longrightarrow> get_next_token (cursor b r) = (createEOF, cursor b r)"
  by (cases r) (auto simp: get_next_token_def)

lemma get_next_token_blank:
  assumes "r \<noteq> []" "hd r = NL"
    and "dropWhile is_NL r = [] \<or> hd (dropWhile is_NL r) = NUL"
  shows "get_next_token (cursor b r) =
           (createEOF, cursor (b @ takeWhile is_NL r) (dropWhile is_NL r))"
proof -
  obtain r' where r: "r = NL # r'" using assms(1,2) by (cases r) auto
  show ?thesis
    using assms(3) unfolding r by (simp add: get_next_token_def skip_newlines_cursor)
qed

text \<open>Where the cursor stands on a byte that is neither 0 nor a newline, nothing is skipped.\<close>

lemma get_next_token_dispatch:
  assumes "c \<noteq> NUL" "c \<noteq> NL"
  shows "get_next_token (cursor b (c # r)) =
     (if c = CHR ''#'' then handle_heading (cursor b (c # r))
      else if c = CHR ''*'' then handle_emphasis (cursor b (c # r))
      else if c = CHR ''['' then handle_link (cursor b (c # r))
      else if c = CHR ''!'' then handle_image (cursor b (c # r))
      else if c = CHR ''-'' then handle_list (cursor b (c # r))
      else (Tok TEXT (trim_newlines (text_run (c # r))),
            cursor (b @ text_run (c # r)) (drop (length (text_run (c # r))) (c # r))))"
  using assms
  by (simp add: get_next_token_def skip_newlines_cursor text_loop_cursor del: text_run.simps)

lemma get_next_token_text:
  assumes "r \<noteq> []" "hd r \<noteq> NUL" "hd r \<noteq> NL" "\<not> is_markdown_char (hd r)"
  shows "get_next_token (cursor b r) =
           (Tok TEXT (trim_newlines (text_run r)),
            cursor (b @ text_run r) (drop (length (text_run r)) r))"
proof -
  obtain c t where r: "r = c # t" using assms(1) by (cases r) auto
  show ?thesis
    using assms(2-4) unfolding r
    by (simp add: get_next_token_dispatch is_markdown_char_def del: text_run.simps)
qed

lemma get_next_token_skip:
  assumes "r \<noteq> []" "hd r = NL"
    and "dropWhile is_NL r \<noteq> []" "hd (dropWhile is_NL r) \<noteq> NUL"
  shows "get_next_token (cursor b r) =
           get_next_token (cursor (b @ takeWhile is_NL r) (dropWhile is_NL r))"
proof -
  define lx1 where "lx1 = cursor b r"
  define lx2 where "lx2 = cursor (b @ takeWhile is_NL r) (dropWhile is_NL r)"
  obtain c r2 where d: "dropWhile is_NL r = c # r2"
    using assms(3) by (cases "dropWhile is_NL r") auto
  have c: "c \<noteq> NUL" "c \<noteq> NL"
    using assms(4) d hd_dropWhile [of is_NL r] by auto
  have cur1: "current_char lx1 \<noteq> NUL"
    using assms(1,2) by (cases r) (auto simp: lx1_def)
  have cur2: "current_char lx2 \<noteq> NUL" "current_char lx2 \<noteq> NL"
    using c by (simp_all add: lx2_def d)
  have again: "skip_newlines lx2 = (False, lx2)"
    using cur2 by (simp add: skip_newlines_stop)
  have first: "skip_newlines lx1 = (False, lx2)"
    using c d by (simp add: skip_newlines_cursor lx1_def lx2_def)
  have "get_next_token lx1 = get_next_token lx2"
    using cur1 cur2 by (simp add: get_next_token_def first again)
  then show ?thesis by (simp add: lx1_def lx2_def)
qed

section \<open>Rendering short token lists\<close>

lemma tokenToHtml_TEXT [simp]: "tokenToHtml (Tok TEXT v) = Inr (escapeHtml v)"
  by (simp add: tokenToHtml_def)

lemma tokensToHtml_Nil: "tokensToHtml [] = Inr []"
  by (simp add: tokensToHtml_def tokensToHtml_loop.simps [of "[]"])

lemma tokensToHtml_one_TEXT:
  "tokensToHtml [Tok TEXT v] = Inr (''<p>'' @ escapeHtml v @ ''</p>'' @ [NL])"
  unfolding tokensToHtml_def
  apply (subst tokensToHtml_loop.simps)
  apply (simp add: Let_def isInlineElement_def isBlockElement_def)
  apply (subst tokensToHtml_loop.simps)
  apply simp
  done

lemma tokensToHtml_two_TEXT:
  "tokensToHtml [Tok TEXT v, Tok TEXT w] =
     Inr (''<p>'' @ escapeHtml v @ escapeHtml w @ ''</p>'' @ [NL])"
  unfolding tokensToHtml_def
  apply (subst tokensToHtml_loop.simps)
  apply (simp add: Let_def isInlineElement_def isBlockElement_def)
  apply (subst tokensToHtml_loop.simps)
  apply (simp add: Let_def isInlineElement_def isBlockElement_def)
  apply (subst tokensToHtml_loop.simps)
  apply simp
  done

section \<open>Plain text\<close>

lemma text_run_all:
  assumes "\<forall>c\<in>set s. c \<noteq> NUL \<and> \<not> is_markdown_char c" and "no_blank_line s"
  shows "text_run s = s"
  using assms by (induction s rule: no_blank_line.induct) auto

lemma text_run_plain_append:
  "\<forall>c\<in>set r. c \<noteq> NUL \<and> c \<noteq> NL \<and> \<not> is_markdown_char c \<Longrightarrow> text_run (r @ x) = r @ text_run x"
  by (induction r) auto

lemma parse_loop_step:
  "\<not> isEOF token \<Longrightarrow> get_next_token lx = (token1, lx1) \<Longrightarrow>
   parse_loop lx token tokens = parse_loop lx1 token1 (tokens @ [token])"
  by (subst parse_loop.simps) simp

lemma parse_loop_done: "isEOF token \<Longrightarrow> parse_loop lx token tokens = Some tokens"
  by (subst parse_loop.simps) simp

lemma tokenize_one:
  assumes "get_next_token (cursor [] s) = (Tok t v, cursor s [])"
  shows "tokenize s = Some [Tok t v]"
proof -
  have "parse_loop (cursor s []) (Tok t v) [] = Some [Tok t v]"
    apply (subst parse_loop.simps)
    apply (simp add: get_next_token_end)
    apply (subst parse_loop.simps)
    apply simp
    done
  then show ?thesis by (simp add: tokenize_def Lexer_new_cursor assms)
qed

text \<open>
  C4, as stated: an input without marker characters renders to its escaped text in one
  paragraph.  The newline that ends \<^verbatim>\<open>a\<close> plus newline is trimmed from the token.
\<close>

theorem plain_text_counterexample:
  "parse (''a'' @ [NL]) \<noteq> Some (Inr (''<p>'' @ escapeHtml (''a'' @ [NL]) @ ''</p>'' @ [NL]))"
  by code_simp

text \<open>
  C4, amended: a non-empty input that holds no marker character and no byte 0, that neither
  starts nor ends with a newline and has no two newlines in a row, renders to its escaped
  text in one paragraph.
\<close>

theorem plain_text_paragraph:
  assumes "s \<noteq> []"
    and "\<forall>c\<in>set s. c \<noteq> NUL \<and> \<not> is_markdown_char c"
    and "hd s \<noteq> NL" and "last s \<noteq> NL"
    and "no_blank_line s"
  shows "parse s = Some (Inr (''<p>'' @ escapeHtml s @ ''</p>'' @ [NL]))"
proof -
  have first: "hd s \<noteq> NUL" "\<not> is_markdown_char (hd s)"
    using assms(1,2) by (cases s; simp)+
  have run: "text_run s = s" using assms(2,5) by (rule text_run_all)
  have trim: "trim_newlines s = s" using assms(4) by (simp add: trim_newlines_keep)
  have "get_next_token (cursor [] s) = (Tok TEXT s, cursor s [])"
    using get_next_token_text [OF assms(1) first(1) assms(3) first(2), of "[]"] run trim by simp
  then have "tokenize s = Some [Tok TEXT s]" by (rule tokenize_one)
  then show ?thesis by (simp add: parse_def tokensToHtml_one_TEXT)
qed

theorem plain_text_paragraph_witness:
  "parse (''a <'' @ [NL] @ ''b'') = Some (Inr (''<p>a &lt;'' @ [NL] @ ''b</p>'' @ [NL]))"
  using plain_text_paragraph [of "''a <'' @ [NL] @ ''b''"]
  by (simp add: is_markdown_char_def)



section \<open>The token list\<close>

lemma parse_loop_tokens_from:
  "parse_loop lx token tokens = Some (tokens @ tokens_from lx token)"
proof (induction "left lx" arbitrary: lx token tokens rule: less_induct)
  case less
  show ?case
  proof (cases "isEOF token")
    case True
    then show ?thesis by (simp add: parse_loop_done tokens_from_def)
  next
    case False
    obtain token1 lx1 where nt: "get_next_token lx = (token1, lx1)"
      by (cases "get_next_token lx")
    note step = parse_loop_step [OF False nt]
    show ?thesis
    proof (cases "isEOF token1")
      case True
      then show ?thesis by (simp add: step parse_loop_done tokens_from_def)
    next
      case False
      with nt have smaller: "left lx1 < left lx" by (rule get_next_token_left)
      have "parse_loop lx1 token1 (tokens @ [token]) = Some ((tokens @ [token]) @ tokens_from lx1 token1)"
        using smaller by (rule less)
      moreover have "parse_loop lx1 token1 ([] @ [token]) = Some (([] @ [token]) @ tokens_from lx1 token1)"
        using smaller by (rule less)
      ultimately show ?thesis by (simp add: step tokens_from_def)
    qed
  qed
qed

lemma tokens_from_EOF: "isEOF token \<Longrightarrow> tokens_from lx token = []"
  by (simp add: tokens_from_def parse_loop_done)

lemma tokens_from_step:
  "\<not> isEOF token \<Longrightarrow> get_next_token lx = (token1, lx1) \<Longrightarrow>
   tokens_from lx token = token # tokens_from lx1 token1"
  using parse_loop_tokens_from [of lx1 token1 "[token]"]
  by (simp add: tokens_from_def parse_loop_step [of token lx token1 lx1 "[]"])

lemma tokenize_tokens_from:
  "get_next_token (cursor [] s) = (token, lx) \<Longrightarrow> tokenize s = Some (tokens_from lx token)"
  using parse_loop_tokens_from [of lx token "[]"]
  by (simp add: tokenize_def Lexer_new_cursor)

lemma tokenize_first:
  assumes "get_next_token (cursor [] s) = (Tok t v, lx)"
  shows "\<exists>others. tokenize s = Some (Tok t v # others)"
proof -
  obtain token1 lx1 where nt: "get_next_token lx = (token1, lx1)"
    by (cases "get_next_token lx")
  have "tokens_from lx (Tok t v) = Tok t v # tokens_from lx1 token1"
    using nt by (simp add: tokens_from_step)
  then show ?thesis using tokenize_tokens_from [OF assms] by simp
qed

section \<open>One round of the rendering loop\<close>

lemma tokensToHtml_loop_round:
  assumes "i < length tokens" "tokenToHtml (tokens ! i) = Inr html"
  shows "tokensToHtml_loop tokens i inList inParagraph out =
     tokensToHtml_loop tokens (i + 1) (getType (tokens ! i) = LIST)
       (para_at_token (getType (tokens ! i)) (para_after_list (getType (tokens ! i)) inParagraph) \<and>
        \<not> closes_after tokens i
            (para_at_token (getType (tokens ! i)) (para_after_list (getType (tokens ! i)) inParagraph)))
       (out @ list_piece (getType (tokens ! i)) inList inParagraph @
        para_piece (getType (tokens ! i)) (para_after_list (getType (tokens ! i)) inParagraph) @
        html @
        (if closes_after tokens i
              (para_at_token (getType (tokens ! i)) (para_after_list (getType (tokens ! i)) inParagraph))
         then ''</p>'' @ [NL] else []))"
  using assms
  apply (subst tokensToHtml_loop.simps)
  apply (simp add: Let_def list_piece_def para_after_list_def para_piece_def para_at_token_def
      closes_after_def)
  done

lemma tokensToHtml_loop_end:
  "\<not> i < length tokens \<Longrightarrow>
   tokensToHtml_loop tokens i inList inParagraph out =
     Inr (out @ (if inList then ''</ul>'' @ [NL] else []) @ (if inParagraph then ''</p>'' @ [NL] else []))"
  by (subst tokensToHtml_loop.simps) (simp add: Let_def)

lemma tokensToHtml_loop_extends:
  "tokensToHtml_loop tokens i inList inParagraph out = Inr res \<Longrightarrow> \<exists>others. res = out @ others"
proof (induction "length tokens - i" arbitrary: i inList inParagraph out rule: less_induct)
  case less
  show ?case
  proof (cases "i < length tokens")
    case False
    then show ?thesis using less.prems by (auto simp: tokensToHtml_loop_end)
  next
    case True
    obtain html where h: "tokenToHtml (tokens ! i) = Inr html"
      using tokenToHtml_returns by blast
    have smaller: "length tokens - (i + 1) < length tokens - i" using True by simp
    from less.prems obtain others where "res = (out @ list_piece (getType (tokens ! i)) inList inParagraph @
        para_piece (getType (tokens ! i)) (para_after_list (getType (tokens ! i)) inParagraph) @
        html @
        (if closes_after tokens i
              (para_at_token (getType (tokens ! i)) (para_after_list (getType (tokens ! i)) inParagraph))
         then ''</p>'' @ [NL] else [])) @ others"
      unfolding tokensToHtml_loop_round [OF True h] using less.hyps [OF smaller] by blast
    then show ?thesis by simp
  qed
qed

lemma tokensToHtml_starts_with_TEXT:
  assumes "tokensToHtml (Tok TEXT v # others) = Inr out"
  shows "take (length (''<p>'' @ escapeHtml v)) out = ''<p>'' @ escapeHtml v"
proof -
  have round: "tokensToHtml (Tok TEXT v # others) =
      tokensToHtml_loop (Tok TEXT v # others) 1 False (\<not> closes_after (Tok TEXT v # others) 0 True)
        (''<p>'' @ escapeHtml v @ (if closes_after (Tok TEXT v # others) 0 True then ''</p>'' @ [NL] else []))"
    unfolding tokensToHtml_def
    by (subst tokensToHtml_loop_round [where html = "escapeHtml v"])
      (simp_all add: list_piece_def para_piece_def para_at_token_def para_after_list_def)
  obtain rest where "out = (''<p>'' @ escapeHtml v @
      (if closes_after (Tok TEXT v # others) 0 True then ''</p>'' @ [NL] else [])) @ rest"
    using assms tokensToHtml_loop_extends unfolding round by blast
  then show ?thesis by simp
qed

section \<open>The fallback of the heading handler\<close>

lemma takeWhile_take_drop:
  "\<forall>x\<in>set (take k r). P x \<Longrightarrow> takeWhile P r = take k r @ takeWhile P (drop k r)"
  using takeWhile_append2 [of "take k r" P "drop k r"] by simp

lemma dropWhile_take_drop:
  "\<forall>x\<in>set (take k r). P x \<Longrightarrow> dropWhile P r = dropWhile P (drop k r)"
  using dropWhile_append2 [of "take k r" P "drop k r"] by simp

lemma takeWhile_replicate_append:
  "P x \<Longrightarrow> takeWhile P (replicate m x @ r) = replicate m x @ takeWhile P r"
  by (induction m) auto

lemma dropWhile_replicate_append:
  "P x \<Longrightarrow> dropWhile P (replicate m x @ r) = dropWhile P r"
  by (induction m) auto

lemma takeWhile_all: "\<forall>x\<in>set r. P x \<Longrightarrow> takeWhile P r = r"
  by (simp add: takeWhile_eq_all_conv)

lemma dropWhile_all: "\<forall>x\<in>set r. P x \<Longrightarrow> dropWhile P r = []"
  by simp

lemma in_span_hash [simp]: "in_span NL (CHR ''#'')"
  by (simp add: in_span_def)

lemma isspace_hash [simp]: "\<not> isspace (CHR ''#'')"
  by (simp add: isspace_def)

lemma handle_heading_fallback:
  assumes "drop (hashes_read r 1) r = [] \<or> \<not> isspace (hd (drop (hashes_read r 1) r))"
  shows "handle_heading (cursor b (CHR ''#'' # r)) =
     (Tok TEXT (CHR ''#'' # takeWhile (in_span NL) r),
      skip_line_end (cursor (b @ CHR ''#'' # takeWhile (in_span NL) r) (dropWhile (in_span NL) r)))"
proof -
  define n where "n = hashes_read r 1"
  define r1 where "r1 = drop n r"
  have hashes: "take n r = replicate n (CHR ''#'')"
    unfolding n_def by (rule hashes_read_replicate)
  then have all: "\<forall>x\<in>set (take n r). in_span NL x" by simp
  have tw: "takeWhile (in_span NL) r = take n r @ takeWhile (in_span NL) r1"
    unfolding r1_def using all by (rule takeWhile_take_drop)
  have dw: "dropWhile (in_span NL) r = dropWhile (in_span NL) r1"
    unfolding r1_def using all by (rule dropWhile_take_drop)
  have nospace: "\<not> isspace (current_char (cursor (b @ CHR ''#'' # take n r) r1))"
    using assms by (cases r1) (auto simp: r1_def n_def)
  have lvl: "replicate (nat (1 + int n)) (CHR ''#'') = CHR ''#'' # take n r"
    using hashes by (simp add: nat_add_distrib)
  have "handle_heading (cursor b (CHR ''#'' # r)) =
      (Tok TEXT (replicate (nat (1 + int n)) (CHR ''#'') @ takeWhile (in_span NL) r1),
       skip_line_end (cursor ((b @ CHR ''#'' # take n r) @ takeWhile (in_span NL) r1)
         (dropWhile (in_span NL) r1)))"
    using nospace
    by (simp add: handle_heading_def count_hashes_cursor collect_until_cursor n_def [symmetric]
        r1_def [symmetric])
  then show ?thesis by (simp add: lvl tw dw)
qed

lemma hashes_read_run:
  "rest = [] \<or> hd rest \<noteq> CHR ''#'' \<Longrightarrow> hashes_read (replicate m (CHR ''#'') @ rest) level \<le> m"
proof (induction m arbitrary: level)
  case 0
  then show ?case by (cases rest) auto
next
  case (Suc m)
  then show ?case by auto
qed

lemma heading_fallback_at:
  assumes "0 < n" and "rest = [] \<or> (hd rest \<noteq> CHR ''#'' \<and> \<not> isspace (hd rest))"
  shows "get_next_token (cursor b (replicate n (CHR ''#'') @ rest)) =
     (Tok TEXT (replicate n (CHR ''#'') @ takeWhile (in_span NL) rest),
      skip_line_end (cursor (b @ replicate n (CHR ''#'') @ takeWhile (in_span NL) rest)
        (dropWhile (in_span NL) rest)))"
proof -
  obtain m where n: "n = Suc m" using assms(1) by (cases n) auto
  define r where "r = replicate m (CHR ''#'') @ rest"
  define k where "k = hashes_read r 1"
  have k: "k \<le> m" unfolding k_def r_def using assms(2) by (intro hashes_read_run) auto
  then have dr: "drop k r = replicate (m - k) (CHR ''#'') @ rest" by (simp add: r_def)
  have cond: "drop (hashes_read r 1) r = [] \<or> \<not> isspace (hd (drop (hashes_read r 1) r))"
  proof (cases "m - k")
    case 0
    then show ?thesis using assms(2) dr by (auto simp: k_def)
  next
    case (Suc j)
    then show ?thesis using dr by (simp add: k_def)
  qed
  have tw: "takeWhile (in_span NL) r = replicate m (CHR ''#'') @ takeWhile (in_span NL) rest"
    by (simp add: r_def takeWhile_replicate_append)
  have dw: "dropWhile (in_span NL) r = dropWhile (in_span NL) rest"
    by (simp add: r_def dropWhile_replicate_append)
  have "get_next_token (cursor b (CHR ''#'' # r)) = handle_heading (cursor b (CHR ''#'' # r))"
    by (simp add: get_next_token_dispatch)
  then show ?thesis
    using handle_heading_fallback [OF cond, of b] by (simp add: n r_def [symmetric] tw dw)
qed

lemma takeWhile_stops:
  "\<forall>x\<in>set u. P x \<Longrightarrow> rest = [] \<or> \<not> P (hd rest) \<Longrightarrow> takeWhile P (u @ rest) = u"
  by (induction u) (auto simp: takeWhile_eq_Nil_iff)

lemma dropWhile_stops:
  "\<forall>x\<in>set u. P x \<Longrightarrow> rest = [] \<or> \<not> P (hd rest) \<Longrightarrow> dropWhile P (u @ rest) = rest"
  by (induction u) (auto simp: dropWhile_eq_self_iff)

section \<open>The cursor only moves forward\<close>

lemma is_cursor_cursor [simp]: "is_cursor (cursor b r)"
  by (auto simp: is_cursor_def)

lemma reaches_refl: "is_cursor lx \<Longrightarrow> reaches lx lx"
proof -
  assume "is_cursor lx"
  then obtain b r where "lx = cursor b r" by (auto simp: is_cursor_def)
  then have "lx = cursor b ([] @ r) \<and> lx = cursor (b @ []) r" by simp
  then show ?thesis unfolding reaches_def by blast
qed

lemma reaches_is_cursor: "reaches lx lx' \<Longrightarrow> is_cursor lx'"
  by (auto simp: reaches_def)

lemma reaches_trans: "reaches lx1 lx2 \<Longrightarrow> reaches lx2 lx3 \<Longrightarrow> reaches lx1 lx3"
proof -
  assume "reaches lx1 lx2" "reaches lx2 lx3"
  then obtain b c r b' c' r' where
    1: "lx1 = cursor b (c @ r)" "lx2 = cursor (b @ c) r" and
    2: "lx2 = cursor b' (c' @ r')" "lx3 = cursor (b' @ c') r'"
    unfolding reaches_def by blast
  from 1(2) 2(1) have "b' = b @ c" "r = c' @ r'" by (simp_all add: cursor_eq_iff)
  then have "lx1 = cursor b ((c @ c') @ r')" "lx3 = cursor (b @ (c @ c')) r'"
    using 1(1) 2(2) by simp_all
  then show ?thesis unfolding reaches_def by blast
qed

lemma reaches_cursor: "reaches (cursor b (c @ r)) (cursor (b @ c) r)"
  unfolding reaches_def by blast

lemma reaches_advance:
  assumes "is_cursor lx" "current_char lx \<noteq> NUL"
  shows "reaches lx (advance lx)"
proof -
  obtain b r where lx: "lx = cursor b r" using assms(1) by (auto simp: is_cursor_def)
  then obtain c r' where r: "r = c # r'" using assms(2) by (cases r) auto
  show ?thesis using reaches_cursor [of b "[c]" r'] by (simp add: lx r)
qed

lemma current_char_advance:
  assumes "is_cursor lx" "current_char lx \<noteq> NUL"
  shows "current_char (advance lx) = peek lx"
proof -
  obtain b r where lx: "lx = cursor b r" using assms(1) by (auto simp: is_cursor_def)
  then obtain c r' where r: "r = c # r'" using assms(2) by (cases r) auto
  show ?thesis by (simp add: lx r)
qed

lemma reaches_advance2:
  assumes "is_cursor lx" "current_char lx \<noteq> NUL" "peek lx \<noteq> NUL"
  shows "reaches lx (advance (advance lx))"
proof -
  have 1: "reaches lx (advance lx)" using assms(1,2) by (rule reaches_advance)
  have "current_char (advance lx) \<noteq> NUL"
    using assms by (simp add: current_char_advance)
  then have "reaches (advance lx) (advance (advance lx))"
    using reaches_is_cursor [OF 1] by (intro reaches_advance)
  with 1 show ?thesis by (rule reaches_trans)
qed

lemma reaches_collect_until:
  assumes "is_cursor lx"
  shows "reaches lx (snd (collect_until d False lx))"
proof -
  obtain b r where lx: "lx = cursor b r" using assms by (auto simp: is_cursor_def)
  show ?thesis
    using reaches_cursor [of b "takeWhile (in_span d) r" "dropWhile (in_span d) r"]
    by (simp add: lx collect_until_cursor)
qed

lemma reaches_skip_line_end:
  assumes "is_cursor lx"
  shows "reaches lx (skip_line_end lx)"
proof (cases "current_char lx = NL")
  case True
  then have "reaches lx (advance lx)" using assms by (intro reaches_advance) auto
  then show ?thesis using True by (simp add: skip_line_end_def)
next
  case False
  then show ?thesis using assms by (simp add: skip_line_end_def reaches_refl)
qed

lemma reaches_count_hashes:
  assumes "is_cursor lx"
  shows "reaches lx (snd (count_hashes lx level))"
proof -
  obtain b r where lx: "lx = cursor b r" using assms by (auto simp: is_cursor_def)
  show ?thesis
    using reaches_cursor [of b "take (hashes_read r level) r" "drop (hashes_read r level) r"]
    by (simp add: lx count_hashes_cursor)
qed

lemma reaches_skip_inline_space:
  assumes "is_cursor lx"
  shows "reaches lx (skip_inline_space lx)"
proof -
  obtain b r where lx: "lx = cursor b r" using assms by (auto simp: is_cursor_def)
  show ?thesis
    using reaches_cursor [of b "takeWhile inline_space r" "dropWhile inline_space r"]
    by (simp add: lx skip_inline_space_cursor)
qed

lemma reaches_italic_loop:
  assumes "is_cursor lx"
  shows "reaches lx (snd (italic_loop lx acc))"
proof -
  obtain b r where lx: "lx = cursor b r" using assms by (auto simp: is_cursor_def)
  define tw where "tw = takeWhile in_italic r"
  define dw where "dw = dropWhile in_italic r"
  have res: "snd (italic_loop (cursor b r) acc) =
      (if dw \<noteq> [] \<and> hd dw = CHR ''*'' then cursor (b @ tw @ ''*'') (tl dw) else cursor (b @ tw) dw)"
    by (simp add: italic_loop_cursor tw_def dw_def)
  have start: "cursor b r = cursor b (tw @ dw)" by (simp add: tw_def dw_def)
  show ?thesis
  proof (cases "dw \<noteq> [] \<and> hd dw = CHR ''*''")
    case True
    then obtain r' where dw': "dw = CHR ''*'' # r'" by (cases dw) auto
    have target: "snd (italic_loop (cursor b r) acc) = cursor (b @ (tw @ ''*'')) r'"
      using res True dw' by simp
    have src: "cursor b r = cursor b ((tw @ ''*'') @ r')" using start dw' by simp
    have "reaches (cursor b ((tw @ ''*'') @ r')) (cursor (b @ (tw @ ''*'')) r')"
      by (rule reaches_cursor)
    then have "reaches (cursor b r) (cursor (b @ (tw @ ''*'')) r')" by (simp only: src)
    then show ?thesis by (simp only: lx target)
  next
    case False
    have target: "snd (italic_loop (cursor b r) acc) = cursor (b @ tw) dw"
      using res False by simp
    have "reaches (cursor b (tw @ dw)) (cursor (b @ tw) dw)" by (rule reaches_cursor)
    then have "reaches (cursor b r) (cursor (b @ tw) dw)" by (simp only: start)
    then show ?thesis by (simp only: lx target)
  qed
qed

lemma reaches_skip_newlines:
  assumes "is_cursor lx"
  shows "reaches lx (snd (skip_newlines lx))"
proof -
  obtain b r where lx: "lx = cursor b r" using assms by (auto simp: is_cursor_def)
  show ?thesis
    using reaches_cursor [of b "takeWhile is_NL r" "dropWhile is_NL r"]
    by (simp add: lx skip_newlines_cursor)
qed

lemma reaches_text_loop:
  assumes "is_cursor lx"
  shows "reaches lx (snd (text_loop lx acc))"
proof -
  obtain b r where lx: "lx = cursor b r" using assms by (auto simp: is_cursor_def)
  have len: "length (text_run r) \<le> length r" by (induction r) auto
  have "take (length (text_run r)) r = text_run r" by (induction r) auto
  then have "r = text_run r @ drop (length (text_run r)) r"
    using append_take_drop_id [of "length (text_run r)" r] by simp
  then show ?thesis
    using reaches_cursor [of b "text_run r" "drop (length (text_run r)) r"]
    by (simp add: lx text_loop_cursor)
qed

lemma reaches_link_loop:
  "is_cursor lx \<Longrightarrow> reaches lx (snd (snd (link_loop lx t d)))"
proof (induction lx t d rule: link_loop.induct)
  case (1 lx t b)
  note cur = "1.prems"
  consider (stop) "current_char lx = NUL"
    | (esc) "current_char lx \<noteq> NUL" "current_char lx = BACKSLASH \<and> peek lx = CHR ''[''"
    | (opn) "current_char lx \<noteq> NUL" "\<not> (current_char lx = BACKSLASH \<and> peek lx = CHR ''['')"
        "current_char lx = CHR ''[''"
    | (cls0) "current_char lx \<noteq> NUL" "\<not> (current_char lx = BACKSLASH \<and> peek lx = CHR ''['')"
        "current_char lx \<noteq> CHR ''[''" "current_char lx = CHR '']''" "b - 1 = 0"
    | (cls) "current_char lx \<noteq> NUL" "\<not> (current_char lx = BACKSLASH \<and> peek lx = CHR ''['')"
        "current_char lx \<noteq> CHR ''[''" "current_char lx = CHR '']''" "b - 1 \<noteq> 0"
    | (oth) "current_char lx \<noteq> NUL" "\<not> (current_char lx = BACKSLASH \<and> peek lx = CHR ''['')"
        "current_char lx \<noteq> CHR ''[''" "current_char lx \<noteq> CHR '']''"
    by blast
  then show ?case
  proof cases
    case stop
    then have "link_loop lx t b = (t, b, lx)" by (simp add: link_loop_stop)
    then show ?thesis using reaches_refl [OF cur] by simp
  next
    case esc
    then have a: "reaches lx (advance (advance lx))"
      using cur by (intro reaches_advance2) auto
    have step: "link_loop lx t b = link_loop (advance (advance lx)) (t @ ''['') b"
      using esc by (simp add: link_loop_escape)
    have "reaches (advance (advance lx)) (snd (snd (link_loop (advance (advance lx)) (t @ ''['') b)))"
      using "1.IH"(1) [OF esc(1) esc(2) reaches_is_cursor [OF a]] .
    with a show ?thesis unfolding step by (rule reaches_trans)
  next
    case opn
    have a: "reaches lx (advance lx)" using cur opn(1) by (rule reaches_advance)
    have step: "link_loop lx t b = link_loop (advance lx) (t @ [current_char lx]) (b + 1)"
      using opn by (simp add: link_loop_open)
    have "reaches (advance lx) (snd (snd (link_loop (advance lx) (t @ [current_char lx]) (b + 1))))"
      using "1.IH"(2) [OF opn(1) opn(2) opn(3) reaches_is_cursor [OF a]] .
    with a show ?thesis unfolding step by (rule reaches_trans)
  next
    case cls0
    have a: "reaches lx (advance lx)" using cur cls0(1) by (rule reaches_advance)
    have "link_loop lx t b = (t, 0, advance lx)"
      using cls0 by (simp add: link_loop_close_last)
    then show ?thesis using a by simp
  next
    case cls
    have a: "reaches lx (advance lx)" using cur cls(1) by (rule reaches_advance)
    have step: "link_loop lx t b = link_loop (advance lx) (t @ [current_char lx]) (b - 1)"
      using cls by (simp add: link_loop_close)
    have "reaches (advance lx) (snd (snd (link_loop (advance lx) (t @ [current_char lx]) (b - 1))))"
      using "1.IH"(3) [OF cls(1) cls(2) cls(3) cls(4) cls(5) reaches_is_cursor [OF a]] .
    with a show ?thesis unfolding step by (rule reaches_trans)
  next
    case oth
    have a: "reaches lx (advance lx)" using cur oth(1) by (rule reaches_advance)
    have step: "link_loop lx t b = link_loop (advance lx) (t @ [current_char lx]) b"
      using oth by (simp add: link_loop_other)
    have "reaches (advance lx) (snd (snd (link_loop (advance lx) (t @ [current_char lx]) b)))"
      using "1.IH"(4) [OF oth(1) oth(2) oth(3) oth(4) reaches_is_cursor [OF a]] .
    with a show ?thesis unfolding step by (rule reaches_trans)
  qed
qed

lemma reaches_handle_heading:
  assumes "is_cursor lx" "current_char lx \<noteq> NUL"
  shows "reaches lx (snd (handle_heading lx))"
proof -
  obtain level lx1 where ch: "count_hashes (advance lx) 1 = (level, lx1)"
    by (cases "count_hashes (advance lx) 1")
  have a: "reaches lx (advance lx)" using assms by (rule reaches_advance)
  have "reaches (advance lx) lx1"
    using reaches_count_hashes [OF reaches_is_cursor [OF a], of 1] ch by simp
  with a have b: "reaches lx lx1" by (rule reaches_trans)
  have line: "reaches lx (skip_line_end (snd (collect_until NL False lx')))" if "reaches lx lx'" for lx'
  proof -
    have c: "reaches lx' (snd (collect_until NL False lx'))"
      using reaches_is_cursor [OF that] by (rule reaches_collect_until)
    have "reaches (snd (collect_until NL False lx')) (skip_line_end (snd (collect_until NL False lx')))"
      using reaches_is_cursor [OF c] by (rule reaches_skip_line_end)
    with that c show ?thesis by (blast intro: reaches_trans)
  qed
  have "reaches lx1 (skip_inline_space lx1)"
    using reaches_is_cursor [OF b] by (rule reaches_skip_inline_space)
  with b have s: "reaches lx (skip_inline_space lx1)" by (rule reaches_trans)
  have "snd (handle_heading lx) =
      (if \<not> isspace (current_char lx1) then skip_line_end (snd (collect_until NL False lx1))
       else skip_line_end (snd (collect_until NL False (skip_inline_space lx1))))"
    by (simp add: handle_heading_def ch case_prod_beta Let_def)
  then show ?thesis using line [OF b] line [OF s] by simp
qed

lemma reaches_handle_emphasis:
  assumes "is_cursor lx" "current_char lx \<noteq> NUL"
  shows "reaches lx (snd (handle_emphasis lx))"
proof -
  define lx1 where "lx1 = advance lx"
  have a: "reaches lx lx1" unfolding lx1_def using assms by (rule reaches_advance)
  show ?thesis
  proof (cases "current_char lx1 = CHR ''*''")
    case False
    have "reaches lx1 (snd (italic_loop lx1 []))"
      using reaches_is_cursor [OF a] by (rule reaches_italic_loop)
    with a have "reaches lx (snd (italic_loop lx1 []))" by (rule reaches_trans)
    then show ?thesis using False by (simp add: handle_emphasis_def Let_def lx1_def [symmetric])
  next
    case True
    define lx3 where "lx3 = snd (collect_until (CHR ''*'') False (advance lx1))"
    have "reaches lx1 (advance lx1)"
      using reaches_is_cursor [OF a] True by (intro reaches_advance) auto
    with a have b: "reaches lx (advance lx1)" by (rule reaches_trans)
    have "reaches (advance lx1) lx3"
      unfolding lx3_def using reaches_is_cursor [OF b] by (rule reaches_collect_until)
    with b have c: "reaches lx lx3" by (rule reaches_trans)
    have d: "reaches lx (advance (advance lx3))"
      if "current_char lx3 = CHR ''*''" "peek lx3 = CHR ''*''"
    proof -
      have "reaches lx3 (advance (advance lx3))"
        using reaches_is_cursor [OF c] that by (intro reaches_advance2) auto
      with c show ?thesis by (rule reaches_trans)
    qed
    have "snd (handle_emphasis lx) =
        (if current_char lx3 = CHR ''*'' \<and> peek lx3 = CHR ''*'' then advance (advance lx3) else lx3)"
      using True
      by (simp add: handle_emphasis_def Let_def lx1_def [symmetric] lx3_def case_prod_beta)
    then show ?thesis using c d by simp
  qed
qed

lemma reaches_handle_link:
  assumes "is_cursor lx" "current_char lx \<noteq> NUL"
  shows "reaches lx (snd (handle_link lx))"
proof -
  obtain t d lx2 where ll: "link_loop (advance lx) [] 1 = (t, d, lx2)"
    by (cases "link_loop (advance lx) [] 1") auto
  define lx4 where "lx4 = snd (collect_until (CHR '')'') False (advance lx2))"
  have a: "reaches lx (advance lx)" using assms by (rule reaches_advance)
  have "reaches (advance lx) lx2"
    using reaches_link_loop [OF reaches_is_cursor [OF a], of "[]" 1] ll by simp
  with a have b: "reaches lx lx2" by (rule reaches_trans)
  have c: "reaches lx lx4" if "current_char lx2 = CHR ''(''"
  proof -
    have "reaches lx2 (advance lx2)"
      using reaches_is_cursor [OF b] that by (intro reaches_advance) auto
    with b have c1: "reaches lx (advance lx2)" by (rule reaches_trans)
    have "reaches (advance lx2) lx4"
      unfolding lx4_def using reaches_is_cursor [OF c1] by (rule reaches_collect_until)
    with c1 show ?thesis by (rule reaches_trans)
  qed
  have d: "reaches lx (advance lx4)" if "current_char lx2 = CHR ''(''" "current_char lx4 = CHR '')''"
  proof -
    have "reaches lx4 (advance lx4)"
      using reaches_is_cursor [OF c [OF that(1)]] that(2) by (intro reaches_advance) auto
    with c [OF that(1)] show ?thesis by (rule reaches_trans)
  qed
  have "snd (handle_link lx) =
      (if d > 0 then lx2 else if current_char lx2 \<noteq> CHR ''('' then lx2
       else if current_char lx4 \<noteq> CHR '')'' then lx4 else advance lx4)"
    by (simp add: handle_link_def ll lx4_def case_prod_beta)
  then show ?thesis using b c d by auto
qed

lemma reaches_handle_image:
  assumes "is_cursor lx" "current_char lx \<noteq> NUL"
  shows "reaches lx (snd (handle_image lx))"
proof -
  have a: "reaches lx (advance lx)" using assms by (rule reaches_advance)
  show ?thesis
  proof (cases "current_char (advance lx) = CHR ''[''")
    case False
    then show ?thesis using a by (simp add: handle_image_def Let_def)
  next
    case True
    then have "reaches (advance lx) (snd (handle_link (advance lx)))"
      using reaches_is_cursor [OF a] by (intro reaches_handle_link) auto
    with a have "reaches lx (snd (handle_link (advance lx)))" by (rule reaches_trans)
    then show ?thesis using True by (simp add: handle_image_def Let_def case_prod_beta)
  qed
qed

lemma reaches_handle_list:
  assumes "is_cursor lx" "current_char lx \<noteq> NUL"
  shows "reaches lx (snd (handle_list lx))"
proof -
  have a: "reaches lx (advance lx)" using assms by (rule reaches_advance)
  have line: "reaches lx (skip_line_end (snd (collect_until NL False lx')))" if "reaches lx lx'" for lx'
  proof -
    have c: "reaches lx' (snd (collect_until NL False lx'))"
      using reaches_is_cursor [OF that] by (rule reaches_collect_until)
    have "reaches (snd (collect_until NL False lx')) (skip_line_end (snd (collect_until NL False lx')))"
      using reaches_is_cursor [OF c] by (rule reaches_skip_line_end)
    with that c show ?thesis by (blast intro: reaches_trans)
  qed
  have b: "reaches lx (advance (advance lx))" if "isspace (current_char (advance lx))"
  proof -
    have "current_char (advance lx) \<noteq> NUL" using that by auto
    then have "reaches (advance lx) (advance (advance lx))"
      using reaches_is_cursor [OF a] by (intro reaches_advance)
    with a show ?thesis by (rule reaches_trans)
  qed
  have "snd (handle_list lx) =
      (if \<not> isspace (current_char (advance lx))
       then skip_line_end (snd (collect_until NL False (advance lx)))
       else skip_line_end (snd (collect_until NL False (advance (advance lx)))))"
    by (simp add: handle_list_def Let_def case_prod_beta)
  then show ?thesis using line [OF a] line [OF b] by auto
qed

lemma reaches_get_next_token:
  assumes "is_cursor lx"
  shows "reaches lx (snd (get_next_token lx))"
proof (cases "current_char lx = NUL")
  case True
  then show ?thesis using assms by (simp add: get_next_token_def reaches_refl)
next
  case False
  obtain at_end lx1 where sk: "skip_newlines lx = (at_end, lx1)" by (cases "skip_newlines lx")
  have a: "reaches lx lx1" using reaches_skip_newlines [OF assms] sk by simp
  note c1 = reaches_is_cursor [OF a]
  show ?thesis
  proof (cases at_end)
    case True
    then show ?thesis using False a by (simp add: get_next_token_def sk)
  next
    case not_end: False
    have nz: "current_char lx1 \<noteq> NUL"
      using skip_newlines_stops [OF False] sk not_end by simp
    have h: "reaches lx (snd (handle_heading lx1))"
      using a reaches_handle_heading [OF c1 nz] by (rule reaches_trans)
    have e: "reaches lx (snd (handle_emphasis lx1))"
      using a reaches_handle_emphasis [OF c1 nz] by (rule reaches_trans)
    have l: "reaches lx (snd (handle_link lx1))"
      using a reaches_handle_link [OF c1 nz] by (rule reaches_trans)
    have i: "reaches lx (snd (handle_image lx1))"
      using a reaches_handle_image [OF c1 nz] by (rule reaches_trans)
    have s: "reaches lx (snd (handle_list lx1))"
      using a reaches_handle_list [OF c1 nz] by (rule reaches_trans)
    have t: "reaches lx (snd (text_loop lx1 []))"
      using a reaches_text_loop [OF c1] by (rule reaches_trans)
    show ?thesis
      using False not_end h e l i s t by (simp add: get_next_token_def sk case_prod_beta)
  qed
qed

section \<open>Where a Bold token comes from\<close>

lemma italic_loop_not_BOLD: "is_cursor lx \<Longrightarrow> getType (fst (italic_loop lx acc)) \<noteq> BOLD"
  by (auto simp: is_cursor_def italic_loop_cursor split: if_splits)

lemma handle_heading_not_BOLD: "getType (fst (handle_heading lx)) \<noteq> BOLD"
  by (simp add: handle_heading_def case_prod_beta Let_def)

lemma handle_link_type: "getType (fst (handle_link lx)) = TEXT \<or> getType (fst (handle_link lx)) = LINK"
  by (simp add: handle_link_def case_prod_beta)

lemma handle_image_not_BOLD: "getType (fst (handle_image lx)) \<noteq> BOLD"
  by (simp add: handle_image_def case_prod_beta Let_def)

lemma handle_list_not_BOLD: "getType (fst (handle_list lx)) \<noteq> BOLD"
  by (simp add: handle_list_def case_prod_beta Let_def)

lemma handle_emphasis_BOLD:
  assumes "is_cursor lx" "current_char lx \<noteq> NUL" "getType (fst (handle_emphasis lx)) = BOLD"
  shows "current_char (advance lx) = CHR ''*''"
proof (rule ccontr)
  assume no: "current_char (advance lx) \<noteq> CHR ''*''"
  have "is_cursor (advance lx)"
    using reaches_advance [OF assms(1,2)] by (rule reaches_is_cursor)
  then have "getType (fst (italic_loop (advance lx) [])) \<noteq> BOLD" by (rule italic_loop_not_BOLD)
  then show False using assms(3) no by (simp add: handle_emphasis_def Let_def)
qed

lemma get_next_token_BOLD:
  assumes "getType (fst (get_next_token (cursor b r))) = BOLD"
  shows "\<exists>u v. r = u @ ''**'' @ v"
proof -
  define lx where "lx = cursor b r"
  have nz: "current_char lx \<noteq> NUL"
    using assms by (auto simp: get_next_token_def lx_def createEOF_def)
  obtain at_end lx1 where sk: "skip_newlines lx = (at_end, lx1)" by (cases "skip_newlines lx")
  have not_end: "\<not> at_end"
    using assms nz by (auto simp: get_next_token_def lx_def [symmetric] sk createEOF_def)
  have a: "reaches lx lx1" using reaches_skip_newlines [of lx] sk by (simp add: lx_def)
  then obtain u r1 where r: "r = u @ r1" and lx1: "lx1 = cursor (b @ u) r1"
    unfolding reaches_def lx_def by (auto simp: cursor_eq_iff)
  have nz1: "current_char lx1 \<noteq> NUL"
    using skip_newlines_stops [OF nz] sk not_end by simp
  have tok: "getType (fst (get_next_token lx)) =
      getType (fst (if current_char lx1 = CHR ''#'' then handle_heading lx1
           else if current_char lx1 = CHR ''*'' then handle_emphasis lx1
           else if current_char lx1 = CHR ''['' then handle_link lx1
           else if current_char lx1 = CHR ''!'' then handle_image lx1
           else if current_char lx1 = CHR ''-'' then handle_list lx1
           else (Tok TEXT (trim_newlines (fst (text_loop lx1 []))), snd (text_loop lx1 []))))"
    using nz not_end by (simp add: get_next_token_def sk case_prod_beta)
  have star: "current_char lx1 = CHR ''*''" and bold: "getType (fst (handle_emphasis lx1)) = BOLD"
    using assms handle_heading_not_BOLD [of lx1] handle_link_type [of lx1]
      handle_image_not_BOLD [of lx1] handle_list_not_BOLD [of lx1]
    unfolding lx_def [symmetric] tok by (auto split: if_splits)
  have second: "current_char (advance lx1) = CHR ''*''"
    using reaches_is_cursor [OF a] nz1 bold by (rule handle_emphasis_BOLD)
  obtain r2 where r1: "r1 = CHR ''*'' # r2" using star lx1 by (cases r1) auto
  obtain v where r2: "r2 = CHR ''*'' # v" using second lx1 r1 by (cases r2) auto
  show ?thesis using r r1 r2 by auto
qed

section \<open>A property of every token\<close>

lemma tokens_from_all:
  assumes step: "\<And>lx. Inv lx \<Longrightarrow> Inv (snd (get_next_token lx)) \<and>
      (\<not> isEOF (fst (get_next_token lx)) \<longrightarrow> Q (fst (get_next_token lx)))"
  shows "Inv lx \<Longrightarrow> isEOF token \<or> Q token \<Longrightarrow> \<forall>t\<in>set (tokens_from lx token). Q t"
proof (induction "left lx" arbitrary: lx token rule: less_induct)
  case less
  show ?case
  proof (cases "isEOF token")
    case True
    then show ?thesis by (simp add: tokens_from_EOF)
  next
    case False
    obtain token1 lx1 where nt: "get_next_token lx = (token1, lx1)"
      by (cases "get_next_token lx")
    have unfold: "tokens_from lx token = token # tokens_from lx1 token1"
      using False nt by (rule tokens_from_step)
    have inv1: "Inv lx1" and q1: "isEOF token1 \<or> Q token1"
      using step [OF less.prems(1)] nt by auto
    have "\<forall>t\<in>set (tokens_from lx1 token1). Q t"
    proof (cases "isEOF token1")
      case True
      then show ?thesis by (simp add: tokens_from_EOF)
    next
      case False
      with nt have "left lx1 < left lx" by (rule get_next_token_left)
      then show ?thesis using inv1 q1 by (rule less.hyps)
    qed
    then show ?thesis using unfold False less.prems(2) by simp
  qed
qed

section \<open>A bold span that is not closed\<close>

lemma no_double_star_append: "\<not> no_double_star (u @ CHR ''*'' # CHR ''*'' # v)"
  by (induction u rule: no_double_star.induct) auto

lemma cursor_two_stars:
  "(current_char (cursor b r) = CHR ''*'' \<and> peek (cursor b r) = CHR ''*'') =
     (\<exists>v. r = CHR ''*'' # CHR ''*'' # v)"
proof (cases r)
  case Nil
  then show ?thesis by (simp add: peek_def)
next
  case (Cons c r')
  then show ?thesis by (cases r') auto
qed

lemma handle_emphasis_unclosed:
  assumes "\<not> (\<exists>v. dropWhile (in_span (CHR ''*'')) r = CHR ''*'' # CHR ''*'' # v)"
  shows "handle_emphasis (cursor b (CHR ''*'' # CHR ''*'' # r)) =
     (Tok TEXT (bold_fallback_text r),
      cursor (b @ ''**'' @ takeWhile (in_span (CHR ''*'')) r) (dropWhile (in_span (CHR ''*'')) r))"
proof -
  define content where "content = takeWhile (in_span (CHR ''*'')) r"
  define rest where "rest = dropWhile (in_span (CHR ''*'')) r"
  have no: "\<not> (current_char (cursor (b @ ''**'' @ content) rest) = CHR ''*'' \<and>
      peek (cursor (b @ ''**'' @ content) rest) = CHR ''*'')"
    using assms unfolding cursor_two_stars rest_def by simp
  have cur: "(current_char (cursor (b @ ''**'' @ content) rest) = CHR ''*'') =
      (rest \<noteq> [] \<and> hd rest = CHR ''*'')"
    by (cases rest) auto
  have "handle_emphasis (cursor b (CHR ''*'' # CHR ''*'' # r)) =
      (Tok TEXT (''**'' @ content @
         (if current_char (cursor (b @ ''**'' @ content) rest) = CHR ''*'' then ''*'' else [])),
       cursor (b @ ''**'' @ content) rest)"
    using no
    by (simp add: handle_emphasis_def Let_def collect_until_cursor content_def [symmetric]
        rest_def [symmetric])
  then show ?thesis
    unfolding cur by (simp add: bold_fallback_text_def content_def rest_def)
qed

section \<open>No strong tag without a Bold token\<close>

lemma tag_ok_append: "tag_ok a \<Longrightarrow> tag_ok b \<Longrightarrow> tag_ok (a @ b)"
  by (induction a) auto

lemma tag_ok_no_lt: "CHR ''<'' \<notin> set s \<Longrightarrow> tag_ok s"
  by (induction s) auto

lemma escapeHtml_no_lt: "CHR ''<'' \<notin> set (escapeHtml s)"
  by (induction s) auto

lemma tag_ok_strong: "\<not> tag_ok (u @ ''<strong>'' @ v)"
  by (induction u) auto

lemma substr_set: "substr s start count = Inr x \<Longrightarrow> set x \<subseteq> set s"
  by (auto simp: substr_def split: if_splits option.splits dest: in_set_takeD in_set_dropD)

lemma tokenToHtml_tag_ok:
  assumes "getType token \<noteq> BOLD" "tokenToHtml token = Inr html"
  shows "tag_ok html"
proof -
  define content where "content = escapeHtml (getValue token)"
  define sep where "sep = find_char content (CHR ''|'')"
  have c: "tag_ok content" unfolding content_def by (intro tag_ok_no_lt escapeHtml_no_lt)
  have part: "tag_ok x" if "substr content k n = Inr x" for k n x
  proof -
    have "set x \<subseteq> set content" using that by (rule substr_set)
    then have "CHR ''<'' \<notin> set x" using escapeHtml_no_lt [of "getValue token"] content_def by auto
    then show ?thesis by (rule tag_ok_no_lt)
  qed
  have wrap: "tag_ok (a @ content @ z)" if "tag_ok a" "tag_ok z" for a z
    using that c by (intro tag_ok_append)
  show ?thesis
  proof (cases "getType token")
    case LINK
    then obtain t u where t: "substr content 0 sep = Inr t"
      and u: "substr content (npos_plus_1 sep) None = Inr u"
      and html: "html = (''<a href='' @ [DQUOTE]) @ u @ ([DQUOTE] @ ''>'') @ t @ ''</a>''"
      using assms(2) unfolding tokenToHtml_def Let_def content_def [symmetric] sep_def [symmetric]
      by (auto split: sum.splits)
    show ?thesis unfolding html using part [OF t] part [OF u]
      by (intro tag_ok_append) simp_all
  next
    case IMAGE
    then obtain t u where t: "substr content 0 sep = Inr t"
      and u: "substr content (npos_plus_1 sep) None = Inr u"
      and html: "html = (''<img src='' @ [DQUOTE]) @ u @ ([DQUOTE] @ '' alt='' @ [DQUOTE]) @ t @
          ([DQUOTE] @ ''>'')"
      using assms(2) unfolding tokenToHtml_def Let_def content_def [symmetric] sep_def [symmetric]
      by (auto split: sum.splits)
    show ?thesis unfolding html using part [OF t] part [OF u]
      by (intro tag_ok_append) simp_all
  next
    case BOLD
    then show ?thesis using assms(1) by simp
  next
    case TEXT
    then have "html = content" using assms(2) by (simp add: tokenToHtml_def content_def)
    then show ?thesis using c by simp
  next
    case H1
    then have "html = ''<h1>'' @ content @ (''</h1>'' @ [NL])"
      using assms(2) by (simp add: tokenToHtml_def content_def)
    then show ?thesis using wrap [of "''<h1>''" "''</h1>'' @ [NL]"] by simp
  next
    case H2
    then have "html = ''<h2>'' @ content @ (''</h2>'' @ [NL])"
      using assms(2) by (simp add: tokenToHtml_def content_def)
    then show ?thesis using wrap [of "''<h2>''" "''</h2>'' @ [NL]"] by simp
  next
    case H3
    then have "html = ''<h3>'' @ content @ (''</h3>'' @ [NL])"
      using assms(2) by (simp add: tokenToHtml_def content_def)
    then show ?thesis using wrap [of "''<h3>''" "''</h3>'' @ [NL]"] by simp
  next
    case H4
    then have "html = ''<h4>'' @ content @ (''</h4>'' @ [NL])"
      using assms(2) by (simp add: tokenToHtml_def content_def)
    then show ?thesis using wrap [of "''<h4>''" "''</h4>'' @ [NL]"] by simp
  next
    case H5
    then have "html = ''<h5>'' @ content @ (''</h5>'' @ [NL])"
      using assms(2) by (simp add: tokenToHtml_def content_def)
    then show ?thesis using wrap [of "''<h5>''" "''</h5>'' @ [NL]"] by simp
  next
    case H6
    then have "html = ''<h6>'' @ content @ (''</h6>'' @ [NL])"
      using assms(2) by (simp add: tokenToHtml_def content_def)
    then show ?thesis using wrap [of "''<h6>''" "''</h6>'' @ [NL]"] by simp
  next
    case ITALIC
    then have "html = ''<em>'' @ content @ ''</em>''"
      using assms(2) by (simp add: tokenToHtml_def content_def)
    then show ?thesis using wrap [of "''<em>''" "''</em>''"] by simp
  next
    case LIST
    then have "html = ''<li>'' @ content @ (''</li>'' @ [NL])"
      using assms(2) by (simp add: tokenToHtml_def content_def)
    then show ?thesis using wrap [of "''<li>''" "''</li>'' @ [NL]"] by simp
  qed
qed

lemma tag_ok_list_piece: "tag_ok (list_piece ty l p)"
  by (simp add: list_piece_def)

lemma tag_ok_para_piece: "tag_ok (para_piece ty p)"
  by (simp add: para_piece_def)

lemma tokensToHtml_loop_tag_ok:
  assumes "\<forall>t\<in>set tokens. getType t \<noteq> BOLD"
  shows "tag_ok out \<Longrightarrow> tokensToHtml_loop tokens i inList inParagraph out = Inr res \<Longrightarrow> tag_ok res"
proof (induction "length tokens - i" arbitrary: i inList inParagraph out rule: less_induct)
  case less
  show ?case
  proof (cases "i < length tokens")
    case False
    have "tag_ok (out @ (if inList then ''</ul>'' @ [NL] else []) @
        (if inParagraph then ''</p>'' @ [NL] else []))"
      using less.prems(1) by (intro tag_ok_append) simp_all
    then show ?thesis using less.prems(2) False by (simp add: tokensToHtml_loop_end)
  next
    case True
    obtain html where h: "tokenToHtml (tokens ! i) = Inr html"
      using tokenToHtml_returns by blast
    have "getType (tokens ! i) \<noteq> BOLD" using assms True by simp
    then have ok: "tag_ok html" using h by (rule tokenToHtml_tag_ok)
    have smaller: "length tokens - (i + 1) < length tokens - i" using True by simp
    define ty where "ty = getType (tokens ! i)"
    define p2 where "p2 = para_at_token ty (para_after_list ty inParagraph)"
    have next_out: "tag_ok (out @ list_piece ty inList inParagraph @
        para_piece ty (para_after_list ty inParagraph) @ html @
        (if closes_after tokens i p2 then ''</p>'' @ [NL] else []))"
      using less.prems(1) ok tag_ok_list_piece tag_ok_para_piece
      by (intro tag_ok_append) simp_all
    show ?thesis
      using less.prems(2) less.hyps [OF smaller next_out]
      unfolding tokensToHtml_loop_round [OF True h] ty_def p2_def by blast
  qed
qed

lemma no_BOLD_after_stars:
  assumes "no_double_star body" and "reaches (cursor ''**'' body) lx"
  shows "reaches (cursor ''**'' body) (snd (get_next_token lx)) \<and>
         (\<not> isEOF (fst (get_next_token lx)) \<longrightarrow> getType (fst (get_next_token lx)) \<noteq> BOLD)"
proof
  have "reaches lx (snd (get_next_token lx))"
    using reaches_is_cursor [OF assms(2)] by (rule reaches_get_next_token)
  with assms(2) show "reaches (cursor ''**'' body) (snd (get_next_token lx))"
    by (rule reaches_trans)
next
  obtain c r where body: "body = c @ r" and lx: "lx = cursor (''**'' @ c) r"
    using assms(2) unfolding reaches_def by (auto simp: cursor_eq_iff)
  have "getType (fst (get_next_token lx)) \<noteq> BOLD"
  proof
    assume "getType (fst (get_next_token lx)) = BOLD"
    then obtain u v where "r = u @ ''**'' @ v"
      unfolding lx using get_next_token_BOLD by blast
    then have "body = (c @ u) @ CHR ''*'' # CHR ''*'' # v" using body by simp
    then show False using assms(1) no_double_star_append by metis
  qed
  then show "\<not> isEOF (fst (get_next_token lx)) \<longrightarrow> getType (fst (get_next_token lx)) \<noteq> BOLD"
    by simp
qed

text \<open>
  C7: when the text after the opening \<^verbatim>\<open>**\<close> (up to the first star, newline or byte 0) is
  not followed by \<^verbatim>\<open>**\<close>, the first token is Text and starts with the two stars, and the
  output starts with \<^verbatim>\<open><p>\<close> and the escaped text of that token.  When no \<^verbatim>\<open>**\<close> follows
  the opening one anywhere, no token is Bold and the output holds no \<^verbatim>\<open><strong>\<close>; when
  the text has no star, byte 0 or newline at all, the output is the whole input in one
  paragraph.
\<close>

theorem unclosed_bold:
  assumes "take 2 (dropWhile (in_span (CHR ''*'')) body) \<noteq> ''**''"
  shows "\<exists>others out.
           tokenize (''**'' @ body) = Some (Tok TEXT (bold_fallback_text body) # others) \<and>
           parse (''**'' @ body) = Some (Inr out) \<and>
           take (length (''<p>'' @ escapeHtml (bold_fallback_text body))) out =
             ''<p>'' @ escapeHtml (bold_fallback_text body) \<and>
           (no_double_star body \<longrightarrow>
              (\<forall>t\<in>set others. getType t \<noteq> BOLD) \<and> \<not> (\<exists>u w. out = u @ ''<strong>'' @ w)) \<and>
           ((\<forall>c\<in>set body. in_span (CHR ''*'') c) \<longrightarrow>
              others = [] \<and> out = ''<p>'' @ escapeHtml (''**'' @ body) @ ''</p>'' @ [NL])"
proof -
  define s where "s = ''**'' @ body"
  define v where "v = bold_fallback_text body"
  define content where "content = takeWhile (in_span (CHR ''*'')) body"
  define rest where "rest = dropWhile (in_span (CHR ''*'')) body"
  define lx where "lx = cursor (''**'' @ content) rest"
  have unclosed: "\<not> (\<exists>v. dropWhile (in_span (CHR ''*'')) body = CHR ''*'' # CHR ''*'' # v)"
    using assms by auto
  have "get_next_token (cursor [] s) = handle_emphasis (cursor [] s)"
    by (simp add: s_def get_next_token_dispatch)
  then have first: "get_next_token (cursor [] s) = (Tok TEXT v, lx)"
    using handle_emphasis_unclosed [OF unclosed, of "[]"]
    by (simp add: s_def v_def lx_def content_def rest_def)
  have start_lx: "reaches (cursor ''**'' body) lx"
    unfolding lx_def using reaches_cursor [of "''**''" content rest]
    by (simp add: content_def rest_def)
  have toks0: "tokenize s = Some (tokens_from lx (Tok TEXT v))"
    using first by (rule tokenize_tokens_from)
  obtain others where toks: "tokenize s = Some (Tok TEXT v # others)"
    using first tokenize_first by blast
  obtain out where out: "tokensToHtml (Tok TEXT v # others) = Inr out"
    unfolding tokensToHtml_def using tokensToHtml_loop_returns by blast
  have parse: "parse s = Some (Inr out)" by (simp add: parse_def toks out)
  have start: "take (length (''<p>'' @ escapeHtml v)) out = ''<p>'' @ escapeHtml v"
    using out by (rule tokensToHtml_starts_with_TEXT)
  have bold_free: "(\<forall>t\<in>set others. getType t \<noteq> BOLD) \<and> \<not> (\<exists>u w. out = u @ ''<strong>'' @ w)"
    if nds: "no_double_star body"
  proof -
    have all: "\<forall>t\<in>set (tokens_from lx (Tok TEXT v)). getType t \<noteq> BOLD"
    proof (rule tokens_from_all [where Inv = "reaches (cursor ''**'' body)"])
      show "reaches (cursor ''**'' body) lx" by (rule start_lx)
      show "isEOF (Tok TEXT v) \<or> getType (Tok TEXT v) \<noteq> BOLD" by simp
    next
      fix lx'
      assume "reaches (cursor ''**'' body) lx'"
      with nds show "reaches (cursor ''**'' body) (snd (get_next_token lx')) \<and>
          (\<not> isEOF (fst (get_next_token lx')) \<longrightarrow> getType (fst (get_next_token lx')) \<noteq> BOLD)"
        by (rule no_BOLD_after_stars)
    qed
    then have others: "\<forall>t\<in>set (Tok TEXT v # others). getType t \<noteq> BOLD"
      using toks0 toks by simp
    have "tag_ok out"
      using tokensToHtml_loop_tag_ok [OF others, of "[]" 0 False False out] out
      by (simp add: tokensToHtml_def)
    then have "\<not> (\<exists>u w. out = u @ ''<strong>'' @ w)"
      using tag_ok_strong by blast
    with others show ?thesis by simp
  qed
  have whole: "others = [] \<and> out = ''<p>'' @ escapeHtml s @ ''</p>'' @ [NL]"
    if plain: "\<forall>c\<in>set body. in_span (CHR ''*'') c"
  proof -
    have c: "content = body" "rest = []"
      by (simp_all add: content_def rest_def takeWhile_all [OF plain] dropWhile_all [OF plain])
    then have "v = s" "lx = cursor s []"
      by (simp_all add: v_def bold_fallback_text_def s_def lx_def content_def [symmetric]
          rest_def [symmetric])
    with first have "tokenize s = Some [Tok TEXT s]" by (simp add: tokenize_one)
    with toks parse show ?thesis by (simp add: parse_def tokensToHtml_one_TEXT \<open>v = s\<close>)
  qed
  show ?thesis
    using toks parse start bold_free whole unfolding s_def v_def by blast
qed

theorem unclosed_bold_witness:
  "tokenize ''**bold'' = Some [Tok TEXT ''**bold''] \<and>
   parse ''**bold'' = Some (Inr (''<p>**bold</p>'' @ [NL]))"
  using unclosed_bold [of "''bold''"]
  by (auto simp: in_span_def bold_fallback_text_def)

section \<open>The bracketed text of a link\<close>

lemma unescape_Cons:
  "\<not> (c = BACKSLASH \<and> take 1 x = ''['') \<Longrightarrow> unescape (c # x) = c # unescape x"
  by (cases x) auto

lemma unescape_escaped: "unescape (BACKSLASH # CHR ''['' # x) = CHR ''['' # unescape x"
  by simp

lemma unescape_snoc: "e \<noteq> CHR ''['' \<Longrightarrow> unescape (x @ [e]) = unescape x @ [e]"
proof (induction x rule: unescape.induct)
  case (1 c d r)
  then show ?case by (cases r) auto
qed auto

lemma bracket_scan_prefix: "take (length (fst (bracket_scan r d))) r = fst (bracket_scan r d)"
proof (induction r d rule: bracket_scan.induct)
  case (1 d)
  then show ?case by simp
next
  case (2 c r d)
  show ?case
  proof (cases "c = BACKSLASH \<and> take 1 r = ''[''")
    case True
    then obtain r2 where r: "r = CHR ''['' # r2" by (cases r) auto
    show ?thesis using True "2.IH"(1) by (simp add: r case_prod_beta)
  next
    case False
    then show ?thesis using "2.IH"(2-4) by (auto simp: case_prod_beta)
  qed
qed

lemma bracket_scan_depth:
  "1 \<le> d \<Longrightarrow> snd (bracket_scan r d) = 0 \<or> 1 \<le> snd (bracket_scan r d)"
proof (induction r d rule: bracket_scan.induct)
  case (1 d)
  then show ?case by simp
next
  case (2 c r d)
  then show ?case by (auto simp: case_prod_beta)
qed

lemma bracket_scan_closed:
  "1 \<le> d \<Longrightarrow> snd (bracket_scan r d) = 0 \<Longrightarrow>
   fst (bracket_scan r d) \<noteq> [] \<and> last (fst (bracket_scan r d)) = CHR '']''"
proof (induction r d rule: bracket_scan.induct)
  case (1 d)
  then show ?case by simp
next
  case (2 c r d)
  then show ?case by (auto simp: case_prod_beta split: if_splits)
qed

lemma link_loop_scan:
  "1 \<le> d \<Longrightarrow>
   link_loop (cursor b r) acc d =
     (acc @ bracket_text r d, snd (bracket_scan r d),
      cursor (b @ fst (bracket_scan r d)) (drop (length (fst (bracket_scan r d))) r))"
proof (induction r arbitrary: b acc d rule: length_induct)
  case (1 r)
  note IH = "1.IH" [rule_format]
  note d = "1.prems"
  show ?case
  proof (cases r)
    case Nil
    then show ?thesis by (simp add: link_loop_stop bracket_text_def)
  next
    case (Cons c r1)
    consider (stop) "c = NUL"
      | (esc) r2 where "c = BACKSLASH" "r1 = CHR ''['' # r2"
      | (opn) "c = CHR ''[''"
      | (cls0) "c = CHR '']''" "d = 1"
      | (cls) "c = CHR '']''" "d \<noteq> 1"
      | (oth) "c \<noteq> NUL" "\<not> (c = BACKSLASH \<and> take 1 r1 = ''['')" "c \<noteq> CHR ''[''" "c \<noteq> CHR '']''"
      by (cases r1) auto
    then show ?thesis
    proof cases
      case stop
      then show ?thesis unfolding Cons by (simp add: link_loop_stop bracket_text_def)
    next
      case esc
      define p where "p = fst (bracket_scan r2 d)"
      define d' where "d' = snd (bracket_scan r2 d)"
      have scan: "bracket_scan (c # r1) d = (c # CHR ''['' # p, d')"
        using esc by (simp add: p_def d'_def case_prod_beta)
      have step: "link_loop (cursor b (c # r1)) acc d = link_loop (cursor (b @ [c, CHR ''['']) r2) (acc @ ''['') d"
        using esc by (simp add: link_loop_escape)
      have "length r2 < length r" using Cons esc by simp
      from IH [OF this d, of "b @ [c, CHR ''['']" "acc @ ''[''"]
      have res: "link_loop (cursor (b @ [c, CHR ''['']) r2) (acc @ ''['') d =
          ((acc @ ''['') @ bracket_text r2 d, d', cursor ((b @ [c, CHR ''['']) @ p) (drop (length p) r2))"
        by (simp add: p_def d'_def)
      have nonempty: "d' = 0 \<Longrightarrow> p \<noteq> []"
        using bracket_scan_closed [OF d, of r2] by (simp add: p_def d'_def)
      have txt': "bracket_text (c # r1) d = CHR ''['' # bracket_text r2 d"
        unfolding bracket_text_def scan using nonempty esc(1)
        by (simp add: p_def [symmetric] d'_def [symmetric])
      show ?thesis
        unfolding Cons step res txt' scan using esc by simp
    next
      case opn
      define p where "p = fst (bracket_scan r1 (d + 1))"
      define d' where "d' = snd (bracket_scan r1 (d + 1))"
      have scan: "bracket_scan (c # r1) d = (c # p, d')"
        using opn by (simp add: p_def d'_def case_prod_beta)
      have step: "link_loop (cursor b (c # r1)) acc d = link_loop (cursor (b @ [c]) r1) (acc @ ''['') (d + 1)"
        using opn by (simp add: link_loop_open)
      have d1: "1 \<le> d + 1" using d by simp
      have "length r1 < length r" using Cons by simp
      from IH [OF this d1, of "b @ [c]" "acc @ ''[''"]
      have res: "link_loop (cursor (b @ [c]) r1) (acc @ ''['') (d + 1) =
          ((acc @ ''['') @ bracket_text r1 (d + 1), d', cursor ((b @ [c]) @ p) (drop (length p) r1))"
        by (simp add: p_def d'_def)
      have nonempty: "d' = 0 \<Longrightarrow> p \<noteq> []"
        using bracket_scan_closed [OF d1, of r1] by (simp add: p_def d'_def)
      have txt': "bracket_text (c # r1) d = CHR ''['' # bracket_text r1 (d + 1)"
        unfolding bracket_text_def scan using nonempty opn
        by (simp add: p_def [symmetric] d'_def [symmetric] unescape_Cons)
      show ?thesis
        unfolding Cons step res txt' scan using opn by simp
    next
      case cls0
      have scan: "bracket_scan (c # r1) d = ([c], 0)" using cls0 by simp
      have "link_loop (cursor b (c # r1)) acc d = (acc, 0, cursor (b @ [c]) r1)"
        using cls0 by (simp add: link_loop_close_last)
      then show ?thesis unfolding Cons bracket_text_def scan by simp
    next
      case cls
      define p where "p = fst (bracket_scan r1 (d - 1))"
      define d' where "d' = snd (bracket_scan r1 (d - 1))"
      have scan: "bracket_scan (c # r1) d = (c # p, d')"
        using cls by (simp add: p_def d'_def case_prod_beta)
      have step: "link_loop (cursor b (c # r1)) acc d = link_loop (cursor (b @ [c]) r1) (acc @ '']'') (d - 1)"
        using cls by (simp add: link_loop_close)
      have d1: "1 \<le> d - 1" using d cls by simp
      have "length r1 < length r" using Cons by simp
      from IH [OF this d1, of "b @ [c]" "acc @ '']''"]
      have res: "link_loop (cursor (b @ [c]) r1) (acc @ '']'') (d - 1) =
          ((acc @ '']'') @ bracket_text r1 (d - 1), d', cursor ((b @ [c]) @ p) (drop (length p) r1))"
        by (simp add: p_def d'_def)
      have nonempty: "d' = 0 \<Longrightarrow> p \<noteq> []"
        using bracket_scan_closed [OF d1, of r1] by (simp add: p_def d'_def)
      have txt': "bracket_text (c # r1) d = CHR '']'' # bracket_text r1 (d - 1)"
        unfolding bracket_text_def scan using nonempty cls
        by (simp add: p_def [symmetric] d'_def [symmetric] unescape_Cons)
      show ?thesis
        unfolding Cons step res txt' scan using cls by simp
    next
      case oth
      define p where "p = fst (bracket_scan r1 d)"
      define d' where "d' = snd (bracket_scan r1 d)"
      have scan: "bracket_scan (c # r1) d = (c # p, d')"
        using oth by (auto simp: p_def d'_def case_prod_beta)
      have "\<not> (c = BACKSLASH \<and> peek (cursor b (c # r1)) = CHR ''['')"
        using oth(2) by (cases r1) auto
      then have step: "link_loop (cursor b (c # r1)) acc d = link_loop (cursor (b @ [c]) r1) (acc @ [c]) d"
        using oth by (simp add: link_loop_other)
      have "length r1 < length r" using Cons by simp
      from IH [OF this d, of "b @ [c]" "acc @ [c]"]
      have res: "link_loop (cursor (b @ [c]) r1) (acc @ [c]) d =
          ((acc @ [c]) @ bracket_text r1 d, d', cursor ((b @ [c]) @ p) (drop (length p) r1))"
        by (simp add: p_def d'_def)
      have nonempty: "d' = 0 \<Longrightarrow> p \<noteq> []"
        using bracket_scan_closed [OF d, of r1] by (simp add: p_def d'_def)
      have pre: "take (length p) r1 = p" unfolding p_def by (rule bracket_scan_prefix)
      have ok1: "\<not> (c = BACKSLASH \<and> take 1 p = ''['')"
        using pre oth(2) by (cases p; cases r1) auto
      have ok2: "\<not> (c = BACKSLASH \<and> take 1 (butlast p) = ''['')"
        using pre oth(2) by (cases p; cases r1) (auto split: if_splits)
      have txt': "bracket_text (c # r1) d = c # bracket_text r1 d"
        unfolding bracket_text_def scan using nonempty
        by (simp add: p_def [symmetric] d'_def [symmetric] unescape_Cons [OF ok1] unescape_Cons [OF ok2])
      show ?thesis
        unfolding Cons step res txt' scan by simp
    qed
  qed
qed

section \<open>What a degraded construct keeps\<close>

lemma degradesI:
  "consumed \<noteq> [] \<Longrightarrow> s = consumed @ rest \<Longrightarrow> v = shown s consumed \<Longrightarrow>
   degrades b s (Tok TEXT v, cursor (b @ consumed) rest)"
  unfolding degrades_def by blast

lemma line_degrades:
  assumes "c = CHR ''#'' \<or> c = CHR ''-''"
  shows "degrades b (c # r)
     (Tok TEXT (c # takeWhile (in_span NL) r),
      skip_line_end (cursor (b @ c # takeWhile (in_span NL) r) (dropWhile (in_span NL) r)))"
proof -
  define tw where "tw = takeWhile (in_span NL) r"
  define dw where "dw = dropWhile (in_span NL) r"
  have r: "r = tw @ dw" by (simp add: tw_def dw_def)
  have "\<forall>x\<in>set tw. x \<noteq> NL" unfolding tw_def by (auto dest: set_takeWhileD simp: in_span_def)
  then have "\<forall>x\<in>set (c # tw). x \<noteq> NL" using assms by auto
  then have last_c: "last (c # tw) \<noteq> NL" using last_in_set [of "c # tw"] by blast
  show ?thesis
  proof (cases "dw \<noteq> [] \<and> hd dw = NL")
    case True
    then obtain dw' where dw': "dw = NL # dw'" by (cases dw) auto
    have st: "skip_line_end (cursor (b @ c # tw) dw) = cursor (b @ (c # tw @ [NL])) dw'"
      by (simp add: dw')
    have sh: "c # tw = shown (c # r) (c # tw @ [NL])"
      using assms by (auto simp: shown_def butlast_append)
    show ?thesis
      unfolding tw_def [symmetric] dw_def [symmetric] st
      by (rule degradesI) (use r dw' sh in simp_all)
  next
    case False
    then have st: "skip_line_end (cursor (b @ c # tw) dw) = cursor (b @ (c # tw)) dw"
      by (simp add: skip_line_end_cursor_other)
    have sh: "c # tw = shown (c # r) (c # tw)"
      using assms last_c by (auto simp: shown_def)
    show ?thesis
      unfolding tw_def [symmetric] dw_def [symmetric] st
      by (rule degradesI) (use r sh in simp_all)
  qed
qed

lemma hashes_read_bound: "level \<le> 6 \<Longrightarrow> int (hashes_read r level) \<le> 6 - level"
  by (induction r level rule: hashes_read.induct) auto

lemma handle_heading_spaced:
  assumes "drop (hashes_read r 1) r \<noteq> []" "isspace (hd (drop (hashes_read r 1) r))"
  shows "getType (fst (handle_heading (cursor b (CHR ''#'' # r)))) \<noteq> TEXT"
proof -
  define n where "n = hashes_read r 1"
  have "int n \<le> 5" using hashes_read_bound [of 1 r] by (simp add: n_def)
  then have level: "1 + int n = 1 \<or> 1 + int n = 2 \<or> 1 + int n = 3 \<or> 1 + int n = 4 \<or>
      1 + int n = 5 \<or> 1 + int n = 6"
    by auto
  have space: "isspace (current_char (cursor (b @ CHR ''#'' # take n r) (drop n r)))"
    using assms by (cases "drop n r") (auto simp: n_def)
  show ?thesis
    using space level
    by (auto simp: handle_heading_def count_hashes_cursor n_def [symmetric] case_prod_beta Let_def)
qed

lemma heading_degrades:
  "malformed (CHR ''#'' # r) \<Longrightarrow> degrades b (CHR ''#'' # r) (handle_heading (cursor b (CHR ''#'' # r)))"
  "\<not> malformed (CHR ''#'' # r) \<Longrightarrow> getType (fst (handle_heading (cursor b (CHR ''#'' # r)))) \<noteq> TEXT"
proof -
  have m: "malformed (CHR ''#'' # r) =
      (drop (hashes_read r 1) r = [] \<or> \<not> isspace (hd (drop (hashes_read r 1) r)))"
    by (simp add: malformed_def)
  show "degrades b (CHR ''#'' # r) (handle_heading (cursor b (CHR ''#'' # r)))"
    if "malformed (CHR ''#'' # r)"
    using that unfolding m
    by (simp add: handle_heading_fallback line_degrades)
  show "getType (fst (handle_heading (cursor b (CHR ''#'' # r)))) \<noteq> TEXT"
    if "\<not> malformed (CHR ''#'' # r)"
    using that unfolding m by (intro handle_heading_spaced) auto
qed

lemma list_degrades:
  "malformed (CHR ''-'' # r) \<Longrightarrow> degrades b (CHR ''-'' # r) (handle_list (cursor b (CHR ''-'' # r)))"
  "\<not> malformed (CHR ''-'' # r) \<Longrightarrow> getType (fst (handle_list (cursor b (CHR ''-'' # r)))) \<noteq> TEXT"
proof -
  have m: "malformed (CHR ''-'' # r) = (\<not> isspace (current_char (cursor (b @ ''-'') r)))"
    by (cases r) (simp_all add: malformed_def)
  show "degrades b (CHR ''-'' # r) (handle_list (cursor b (CHR ''-'' # r)))"
    if "malformed (CHR ''-'' # r)"
  proof -
    have "handle_list (cursor b (CHR ''-'' # r)) =
        (Tok TEXT (CHR ''-'' # takeWhile (in_span NL) r),
         skip_line_end (cursor (b @ CHR ''-'' # takeWhile (in_span NL) r) (dropWhile (in_span NL) r)))"
      using that unfolding m by (simp add: handle_list_def Let_def collect_until_cursor)
    then show ?thesis by (simp add: line_degrades)
  qed
  show "getType (fst (handle_list (cursor b (CHR ''-'' # r)))) \<noteq> TEXT"
    if "\<not> malformed (CHR ''-'' # r)"
    using that unfolding m by (simp add: handle_list_def Let_def case_prod_beta)
qed

lemma handle_emphasis_closed:
  assumes "dropWhile (in_span (CHR ''*'')) r = CHR ''*'' # CHR ''*'' # v"
  shows "getType (fst (handle_emphasis (cursor b (CHR ''*'' # CHR ''*'' # r)))) = BOLD"
proof -
  have "current_char (cursor (b @ ''**'' @ takeWhile (in_span (CHR ''*'')) r) (CHR ''*'' # CHR ''*'' # v)) = CHR ''*'' \<and>
      peek (cursor (b @ ''**'' @ takeWhile (in_span (CHR ''*'')) r) (CHR ''*'' # CHR ''*'' # v)) = CHR ''*''"
    by simp
  then show ?thesis
    by (simp add: handle_emphasis_def Let_def collect_until_cursor assms)
qed

lemma take_2_stars: "(take 2 x = ''**'') = (\<exists>v. x = CHR ''*'' # CHR ''*'' # v)"
proof (cases x)
  case Nil
  then show ?thesis by simp
next
  case (Cons c x')
  then show ?thesis by (cases x') auto
qed

lemma take_1_char: "(take 1 x = [c]) = (x \<noteq> [] \<and> hd x = c)"
  by (cases x) auto

lemma emphasis_degrades:
  "(getType (fst (handle_emphasis (cursor b (CHR ''*'' # r)))) = TEXT) = malformed (CHR ''*'' # r)"
  "malformed (CHR ''*'' # r) \<Longrightarrow> \<not> stops_at_star (CHR ''*'' # r) \<Longrightarrow>
   degrades b (CHR ''*'' # r) (handle_emphasis (cursor b (CHR ''*'' # r)))"
proof -
  have both: "((getType (fst (handle_emphasis (cursor b (CHR ''*'' # r)))) = TEXT) = malformed (CHR ''*'' # r)) \<and>
    (malformed (CHR ''*'' # r) \<longrightarrow> \<not> stops_at_star (CHR ''*'' # r) \<longrightarrow>
       degrades b (CHR ''*'' # r) (handle_emphasis (cursor b (CHR ''*'' # r))))"
  proof (cases "r \<noteq> [] \<and> hd r = CHR ''*''")
    case True
    then obtain r2 where r: "r = CHR ''*'' # r2" by (cases r) auto
    define tw where "tw = takeWhile (in_span (CHR ''*'')) r2"
    define dw where "dw = dropWhile (in_span (CHR ''*'')) r2"
    have r2: "r2 = tw @ dw" by (simp add: tw_def dw_def)
    have m: "malformed (CHR ''*'' # r) = (\<not> (\<exists>v. dw = CHR ''*'' # CHR ''*'' # v))"
      unfolding r dw_def take_2_stars [symmetric] by (simp add: malformed_def)
    have st: "stops_at_star (CHR ''*'' # r) = (dw \<noteq> [] \<and> hd dw = CHR ''*'')"
      unfolding r dw_def take_1_char [symmetric] by (simp add: stops_at_star_def)
    show ?thesis
    proof (cases "\<exists>v. dw = CHR ''*'' # CHR ''*'' # v")
      case True
      then obtain v where "dropWhile (in_span (CHR ''*'')) r2 = CHR ''*'' # CHR ''*'' # v"
        by (auto simp: dw_def)
      then have "getType (fst (handle_emphasis (cursor b (CHR ''*'' # r)))) = BOLD"
        unfolding r by (rule handle_emphasis_closed)
      then show ?thesis using True m by simp
    next
      case False
      then have res: "handle_emphasis (cursor b (CHR ''*'' # r)) =
          (Tok TEXT (bold_fallback_text r2), cursor (b @ ''**'' @ tw) dw)"
        unfolding r tw_def dw_def by (rule handle_emphasis_unclosed)
      have deg: "degrades b (CHR ''*'' # r) (handle_emphasis (cursor b (CHR ''*'' # r)))"
        if "\<not> stops_at_star (CHR ''*'' # r)"
      proof -
        have payload: "bold_fallback_text r2 = ''**'' @ tw"
          using that unfolding st by (auto simp: bold_fallback_text_def tw_def dw_def)
        have sh: "''**'' @ tw = shown (CHR ''*'' # r) (''**'' @ tw)"
          by (simp add: shown_def)
        show ?thesis
          unfolding res payload
          by (rule degradesI) (use r r2 sh in simp_all)
      qed
      show ?thesis using False m deg by (simp add: res)
    qed
  next
    case False
    define tw where "tw = takeWhile in_italic r"
    define dw where "dw = dropWhile in_italic r"
    have r: "r = tw @ dw" by (simp add: tw_def dw_def)
    have cur: "current_char (cursor (b @ ''*'') r) \<noteq> CHR ''*''"
      using False by (cases r) auto
    then have it: "handle_emphasis (cursor b (CHR ''*'' # r)) = italic_loop (cursor (b @ ''*'') r) []"
      by (simp add: handle_emphasis_def Let_def)
    have not2: "take 2 (CHR ''*'' # r) \<noteq> ''**''" using False by (cases r) auto
    have m: "malformed (CHR ''*'' # r) = (\<not> (dw \<noteq> [] \<and> hd dw = CHR ''*''))"
      unfolding dw_def take_1_char [symmetric] using not2 by (simp add: malformed_def)
    show ?thesis
    proof (cases "dw \<noteq> [] \<and> hd dw = CHR ''*''")
      case True
      then show ?thesis unfolding it m by (simp add: italic_loop_cursor dw_def)
    next
      case False
      then have res: "handle_emphasis (cursor b (CHR ''*'' # r)) =
          (Tok TEXT (''*'' @ tw), cursor (b @ ''*'' @ tw) dw)"
        unfolding it by (auto simp: italic_loop_cursor dw_def tw_def)
      have sh: "''*'' @ tw = shown (CHR ''*'' # r) (''*'' @ tw)"
        by (simp add: shown_def)
      have "degrades b (CHR ''*'' # r) (handle_emphasis (cursor b (CHR ''*'' # r)))"
        unfolding res by (rule degradesI) (use r sh in simp_all)
      then show ?thesis using False m by (simp add: res)
    qed
  qed
  show "(getType (fst (handle_emphasis (cursor b (CHR ''*'' # r)))) = TEXT) = malformed (CHR ''*'' # r)"
    using both by blast
  show "degrades b (CHR ''*'' # r) (handle_emphasis (cursor b (CHR ''*'' # r)))"
    if "malformed (CHR ''*'' # r)" "\<not> stops_at_star (CHR ''*'' # r)"
    using both that by blast
qed

text \<open>The link handler, in terms of the scan of the bracketed text.\<close>

lemma bracket_text_closed:
  assumes "1 \<le> d" "snd (bracket_scan r d) = 0"
  shows "bracket_text r d @ '']'' = unescape (fst (bracket_scan r d))"
proof -
  define p where "p = fst (bracket_scan r d)"
  have "p \<noteq> [] \<and> last p = CHR '']''"
    unfolding p_def using assms by (rule bracket_scan_closed)
  then have p: "p = butlast p @ '']''" using append_butlast_last_id [of p] by simp
  have "unescape (butlast p @ '']'') = unescape (butlast p) @ '']''"
    by (rule unescape_snoc) simp
  then show ?thesis
    using p assms(2) by (simp add: bracket_text_def p_def [symmetric])
qed

lemma handle_link_cursor:
  "handle_link (cursor b (CHR ''['' # r)) =
     (let inside = fst (bracket_scan r 1);
          after = drop (length inside) r;
          url = takeWhile (in_span (CHR '')'')) (drop 1 after);
          rest = dropWhile (in_span (CHR '')'')) (drop 1 after)
      in if snd (bracket_scan r 1) \<noteq> 0
         then (Tok TEXT (CHR ''['' # unescape inside), cursor (b @ CHR ''['' # inside) after)
         else if take 1 after \<noteq> ''(''
         then (Tok TEXT (CHR ''['' # unescape inside), cursor (b @ CHR ''['' # inside) after)
         else if take 1 rest \<noteq> '')''
         then (Tok TEXT (CHR ''['' # unescape inside @ ''('' @ url),
               cursor (b @ CHR ''['' # inside @ ''('' @ url) rest)
         else (Tok LINK (bracket_text r 1 @ ''|'' @ url),
               cursor (b @ CHR ''['' # inside @ ''('' @ url @ '')'') (drop 1 rest)))"
proof -
  define inside where "inside = fst (bracket_scan r 1)"
  define after where "after = drop (length inside) r"
  define url where "url = takeWhile (in_span (CHR '')'')) (drop 1 after)"
  define rest where "rest = dropWhile (in_span (CHR '')'')) (drop 1 after)"
  have loop: "link_loop (cursor (b @ ''['') r) [] 1 =
      (bracket_text r 1, snd (bracket_scan r 1), cursor (b @ CHR ''['' # inside) after)"
    using link_loop_scan [of 1 "b @ ''[''" r "[]"] by (simp add: inside_def after_def)
  have depth: "snd (bracket_scan r 1) = 0 \<or> 1 \<le> snd (bracket_scan r 1)"
    by (rule bracket_scan_depth) simp
  show ?thesis
  proof (cases "snd (bracket_scan r 1) = 0")
    case False
    then have "0 < snd (bracket_scan r 1)" using depth by auto
    moreover have "bracket_text r 1 = unescape inside"
      using False by (simp add: bracket_text_def inside_def)
    ultimately show ?thesis
      using False by (simp add: handle_link_def loop inside_def [symmetric] after_def [symmetric] Let_def)
  next
    case True
    have closed: "bracket_text r 1 @ '']'' = unescape inside"
      unfolding inside_def using True by (intro bracket_text_closed) simp_all
    show ?thesis
    proof (cases "take 1 after = ''(''")
      case False
      then have "current_char (cursor (b @ CHR ''['' # inside) after) \<noteq> CHR ''(''"
        by (cases after) auto
      then show ?thesis
        using True False closed
        by (simp add: handle_link_def loop inside_def [symmetric] after_def [symmetric] Let_def)
    next
      case paren: True
      then obtain a' where a': "after = CHR ''('' # a'" by (cases after) auto
      have url_a: "takeWhile (in_span (CHR '')'')) a' = url" by (simp add: url_def a')
      have rest_a: "dropWhile (in_span (CHR '')'')) a' = rest" by (simp add: rest_def a')
      have cu: "collect_until (CHR '')'') False (cursor (b @ CHR ''['' # inside @ ''('') a') =
          (url, cursor (b @ CHR ''['' # inside @ ''('' @ url) rest)"
        by (simp add: collect_until_cursor url_a rest_a)
      show ?thesis
      proof (cases "take 1 rest = '')''")
        case False
        then have "current_char (cursor (b @ CHR ''['' # inside @ ''('' @ url) rest) \<noteq> CHR '')''"
          by (cases rest) auto
        then show ?thesis
          using True paren False closed [symmetric] cu
          by (simp add: handle_link_def loop inside_def [symmetric] after_def [symmetric] Let_def a'
              url_a rest_a)
      next
        case close: True
        then obtain r' where r': "rest = CHR '')'' # r'" by (cases rest) auto
        show ?thesis
          using True paren close cu
          by (simp add: handle_link_def loop inside_def [symmetric] after_def [symmetric] Let_def a'
              url_a rest_a r')
      qed
    qed
  qed
qed

lemma link_malformed:
  assumes "malformed_link r"
  shows "\<exists>consumed rest. r = consumed @ rest \<and>
     handle_link (cursor b (CHR ''['' # r)) =
       (Tok TEXT (CHR ''['' # unescape_inside r consumed), cursor (b @ CHR ''['' # consumed) rest)"
proof -
  define inside where "inside = fst (bracket_scan r 1)"
  define after where "after = drop (length inside) r"
  define url where "url = takeWhile (in_span (CHR '')'')) (drop 1 after)"
  define rest where "rest = dropWhile (in_span (CHR '')'')) (drop 1 after)"
  have "take (length inside) r = inside" unfolding inside_def by (rule bracket_scan_prefix)
  then have r: "r = inside @ after"
    unfolding after_def using append_take_drop_id [of "length inside" r] by simp
  have u1: "unescape_inside r inside = unescape inside"
    by (simp add: unescape_inside_def inside_def)
  have u2: "unescape_inside r (inside @ ''('' @ url) = unescape inside @ ''('' @ url"
    by (simp add: unescape_inside_def inside_def [symmetric])
  have eq: "handle_link (cursor b (CHR ''['' # r)) =
     (if snd (bracket_scan r 1) \<noteq> 0 \<or> take 1 after \<noteq> ''(''
      then (Tok TEXT (CHR ''['' # unescape inside), cursor (b @ CHR ''['' # inside) after)
      else (Tok TEXT (CHR ''['' # unescape inside @ ''('' @ url),
            cursor (b @ CHR ''['' # inside @ ''('' @ url) rest))"
    using assms
    unfolding handle_link_cursor malformed_link_def Let_def inside_def after_def url_def rest_def
    by auto
  show ?thesis
  proof (cases "snd (bracket_scan r 1) \<noteq> 0 \<or> take 1 after \<noteq> ''(''")
    case True
    then have "r = inside @ after \<and> handle_link (cursor b (CHR ''['' # r)) =
       (Tok TEXT (CHR ''['' # unescape_inside r inside), cursor (b @ CHR ''['' # inside) after)"
      using r eq u1 by simp
    then show ?thesis by blast
  next
    case False
    then obtain a' where a': "after = CHR ''('' # a'" by (cases after) auto
    have "a' = url @ rest" by (simp add: url_def rest_def a')
    then have "r = (inside @ ''('' @ url) @ rest" using r a' by simp
    moreover have "handle_link (cursor b (CHR ''['' # r)) =
       (Tok TEXT (CHR ''['' # unescape_inside r (inside @ ''('' @ url)),
        cursor (b @ CHR ''['' # (inside @ ''('' @ url)) rest)"
      using False eq u2 by simp
    ultimately show ?thesis by blast
  qed
qed

lemma link_wellformed:
  "\<not> malformed_link r \<Longrightarrow> getType (fst (handle_link (cursor b (CHR ''['' # r)))) = LINK"
  by (simp add: handle_link_cursor malformed_link_def Let_def)

lemma link_degrades:
  "(getType (fst (handle_link (cursor b (CHR ''['' # r)))) = TEXT) = malformed (CHR ''['' # r)"
  "malformed (CHR ''['' # r) \<Longrightarrow> degrades b (CHR ''['' # r) (handle_link (cursor b (CHR ''['' # r)))"
proof -
  have m: "malformed (CHR ''['' # r) = malformed_link r" by (simp add: malformed_def)
  have deg: "degrades b (CHR ''['' # r) (handle_link (cursor b (CHR ''['' # r)))"
    if ml: "malformed_link r"
  proof -
    obtain consumed rest where c: "r = consumed @ rest"
      "handle_link (cursor b (CHR ''['' # r)) =
         (Tok TEXT (CHR ''['' # unescape_inside r consumed), cursor (b @ CHR ''['' # consumed) rest)"
      using link_malformed [OF ml] by blast
    have sh: "CHR ''['' # unescape_inside r consumed = shown (CHR ''['' # r) (CHR ''['' # consumed)"
      by (simp add: shown_def)
    show ?thesis
      unfolding c(2) using degradesI [of "CHR ''['' # consumed" "CHR ''['' # r" rest _ b] c(1) sh
      by simp
  qed
  show "degrades b (CHR ''['' # r) (handle_link (cursor b (CHR ''['' # r)))"
    if "malformed (CHR ''['' # r)"
    using that deg m by simp
  show "(getType (fst (handle_link (cursor b (CHR ''['' # r)))) = TEXT) = malformed (CHR ''['' # r)"
  proof (cases "malformed_link r")
    case True
    then show ?thesis using deg m by (auto simp: degrades_def)
  next
    case False
    then show ?thesis using link_wellformed [OF False, of b] m by simp
  qed
qed

lemma image_degrades:
  "(getType (fst (handle_image (cursor b (CHR ''!'' # r)))) = TEXT) = malformed (CHR ''!'' # r)"
  "malformed (CHR ''!'' # r) \<Longrightarrow> degrades b (CHR ''!'' # r) (handle_image (cursor b (CHR ''!'' # r)))"
proof -
  have both: "((getType (fst (handle_image (cursor b (CHR ''!'' # r)))) = TEXT) = malformed (CHR ''!'' # r)) \<and>
    (malformed (CHR ''!'' # r) \<longrightarrow> degrades b (CHR ''!'' # r) (handle_image (cursor b (CHR ''!'' # r))))"
  proof (cases "take 1 r = ''[''")
    case False
    then have cur: "current_char (cursor (b @ ''!'') r) \<noteq> CHR ''[''" by (cases r) auto
    then have res: "handle_image (cursor b (CHR ''!'' # r)) = (Tok TEXT ''!'', cursor (b @ ''!'') r)"
      by (simp add: handle_image_def Let_def)
    have m: "malformed (CHR ''!'' # r)" using False by (simp add: malformed_def)
    have not2: "take 2 (CHR ''!'' # r) \<noteq> ''![''" using False by (cases r) auto
    have sh: "''!'' = shown (CHR ''!'' # r) ''!''" using not2 by (simp add: shown_def)
    have "degrades b (CHR ''!'' # r) (handle_image (cursor b (CHR ''!'' # r)))"
      unfolding res by (rule degradesI) (use sh in simp_all)
    then show ?thesis using m by (simp add: res)
  next
    case True
    then obtain r2 where r: "r = CHR ''['' # r2" by (cases r) auto
    have m: "malformed (CHR ''!'' # r) = malformed_link r2" by (simp add: malformed_def r)
    have img: "handle_image (cursor b (CHR ''!'' # r)) =
        (case handle_link (cursor (b @ ''!'') (CHR ''['' # r2)) of (linkToken, lx1) \<Rightarrow>
           if getType linkToken = LINK then (Tok IMAGE (getValue linkToken), lx1)
           else (Tok TEXT (''!'' @ getValue linkToken), lx1))"
      by (simp add: handle_image_def Let_def r)
    show ?thesis
    proof (cases "malformed_link r2")
      case False
      then have "getType (fst (handle_link (cursor (b @ ''!'') (CHR ''['' # r2)))) = LINK"
        by (rule link_wellformed)
      then show ?thesis using False m unfolding img by (simp add: case_prod_beta)
    next
      case True
      then obtain consumed rest where c: "r2 = consumed @ rest"
        "handle_link (cursor (b @ ''!'') (CHR ''['' # r2)) =
           (Tok TEXT (CHR ''['' # unescape_inside r2 consumed), cursor ((b @ ''!'') @ CHR ''['' # consumed) rest)"
        using link_malformed [OF True, of "b @ ''!''"] by blast
      have res: "handle_image (cursor b (CHR ''!'' # r)) =
          (Tok TEXT (CHR ''!'' # CHR ''['' # unescape_inside r2 consumed),
           cursor (b @ CHR ''!'' # CHR ''['' # consumed) rest)"
        unfolding img c(2) by simp
      have sh: "CHR ''!'' # CHR ''['' # unescape_inside r2 consumed =
          shown (CHR ''!'' # r) (CHR ''!'' # CHR ''['' # consumed)"
        by (simp add: shown_def r)
      have "degrades b (CHR ''!'' # r) (handle_image (cursor b (CHR ''!'' # r)))"
        unfolding res using degradesI [of "CHR ''!'' # CHR ''['' # consumed" "CHR ''!'' # r" rest _ b] c(1) sh r
        by simp
      then show ?thesis using True m by (simp add: res)
    qed
  qed
  show "(getType (fst (handle_image (cursor b (CHR ''!'' # r)))) = TEXT) = malformed (CHR ''!'' # r)"
    using both by blast
  show "degrades b (CHR ''!'' # r) (handle_image (cursor b (CHR ''!'' # r)))"
    if "malformed (CHR ''!'' # r)"
    using both that by blast
qed

text \<open>No handler returns the end marker.\<close>

lemma handle_heading_not_EOF: "\<not> isEOF (fst (handle_heading lx))"
  by (simp add: handle_heading_def Let_def case_prod_beta)

lemma handle_list_not_EOF: "\<not> isEOF (fst (handle_list lx))"
  by (simp add: handle_list_def Let_def case_prod_beta)

lemma handle_emphasis_not_EOF: "\<not> isEOF (fst (handle_emphasis (cursor b (c # r))))"
  by (cases r) (simp_all add: handle_emphasis_def Let_def case_prod_beta italic_loop_cursor)

lemma handle_link_not_EOF: "\<not> isEOF (fst (handle_link (cursor b (CHR ''['' # r))))"
  by (simp add: handle_link_cursor Let_def)

lemma handle_image_not_EOF: "\<not> isEOF (fst (handle_image (cursor b (c # r))))"
proof (cases "r \<noteq> [] \<and> hd r = CHR ''[''")
  case True
  then obtain r2 where "r = CHR ''['' # r2" by (cases r) auto
  then show ?thesis by (simp add: handle_image_def Let_def case_prod_beta)
next
  case False
  then have "current_char (cursor (b @ [c]) r) \<noteq> CHR ''[''" by (cases r) auto
  then show ?thesis by (simp add: handle_image_def Let_def)
qed

lemma get_next_token_newlines:
  assumes "c \<noteq> NUL" "c \<noteq> NL"
  shows "get_next_token (cursor b (replicate k NL @ c # r)) =
     get_next_token (cursor (b @ replicate k NL) (c # r))"
proof (cases k)
  case 0
  then show ?thesis by simp
next
  case (Suc j)
  have tw: "takeWhile is_NL (replicate k NL @ c # r) = replicate k NL"
    using assms(2) by (simp add: takeWhile_stops)
  have dw: "dropWhile is_NL (replicate k NL @ c # r) = c # r"
    using assms(2) by (simp add: dropWhile_stops)
  have "get_next_token (cursor b (replicate k NL @ c # r)) =
      get_next_token (cursor (b @ takeWhile is_NL (replicate k NL @ c # r))
        (dropWhile is_NL (replicate k NL @ c # r)))"
  proof (rule get_next_token_skip)
    show "replicate k NL @ c # r \<noteq> []" by simp
    show "hd (replicate k NL @ c # r) = NL" using Suc by simp
    show "dropWhile is_NL (replicate k NL @ c # r) \<noteq> []" unfolding dw by simp
    show "hd (dropWhile is_NL (replicate k NL @ c # r)) \<noteq> NUL" unfolding dw using assms(1) by simp
  qed
  then show ?thesis by (simp add: tw dw)
qed

lemma next_token_degrades:
  assumes "is_markdown_char c"
  shows "\<not> isEOF (fst (get_next_token (cursor b (c # r))))"
    and "(getType (fst (get_next_token (cursor b (c # r)))) = TEXT) = malformed (c # r)"
    and "malformed (c # r) \<Longrightarrow> \<not> stops_at_star (c # r) \<Longrightarrow>
         degrades b (c # r) (get_next_token (cursor b (c # r)))"
proof -
  have c: "c \<noteq> NUL" "c \<noteq> NL"
    using assms by (auto simp: is_markdown_char_def)
  note dispatch = get_next_token_dispatch [OF c, of b r]
  consider (heading) "c = CHR ''#''" | (emphasis) "c = CHR ''*''" | (link) "c = CHR ''[''"
    | (image) "c = CHR ''!''" | (list) "c = CHR ''-''"
    using assms by (auto simp: is_markdown_char_def)
  then have "\<not> isEOF (fst (get_next_token (cursor b (c # r)))) \<and>
    ((getType (fst (get_next_token (cursor b (c # r)))) = TEXT) = malformed (c # r)) \<and>
    (malformed (c # r) \<longrightarrow> \<not> stops_at_star (c # r) \<longrightarrow>
       degrades b (c # r) (get_next_token (cursor b (c # r))))"
  proof cases
    case heading
    have res: "get_next_token (cursor b (CHR ''#'' # r)) = handle_heading (cursor b (CHR ''#'' # r))"
      using dispatch heading by simp
    show ?thesis
      unfolding heading res
      using heading_degrades [where b = b and r = r] handle_heading_not_EOF
      by (auto simp: degrades_def)
  next
    case emphasis
    have res: "get_next_token (cursor b (CHR ''*'' # r)) = handle_emphasis (cursor b (CHR ''*'' # r))"
      using dispatch emphasis by simp
    show ?thesis
      unfolding emphasis res
      using emphasis_degrades [where b = b and r = r] handle_emphasis_not_EOF by blast
  next
    case link
    have res: "get_next_token (cursor b (CHR ''['' # r)) = handle_link (cursor b (CHR ''['' # r))"
      using dispatch link by simp
    show ?thesis
      unfolding link res
      using link_degrades [where b = b and r = r] handle_link_not_EOF by blast
  next
    case image
    have res: "get_next_token (cursor b (CHR ''!'' # r)) = handle_image (cursor b (CHR ''!'' # r))"
      using dispatch image by simp
    show ?thesis
      unfolding image res
      using image_degrades [where b = b and r = r] handle_image_not_EOF by blast
  next
    case list
    have res: "get_next_token (cursor b (CHR ''-'' # r)) = handle_list (cursor b (CHR ''-'' # r))"
      using dispatch list by simp
    show ?thesis
      unfolding list res
      using list_degrades [where b = b and r = r] handle_list_not_EOF
      by (auto simp: degrades_def)
  qed
  then show "\<not> isEOF (fst (get_next_token (cursor b (c # r))))"
    and "(getType (fst (get_next_token (cursor b (c # r)))) = TEXT) = malformed (c # r)"
    and "malformed (c # r) \<Longrightarrow> \<not> stops_at_star (c # r) \<Longrightarrow>
         degrades b (c # r) (get_next_token (cursor b (c # r)))"
    by blast+
qed

section \<open>A Text token in the rendering loop\<close>

lemma tokensToHtml_loop_TEXT:
  assumes "i < length tokens" "tokens ! i = Tok TEXT v"
  shows "tokensToHtml_loop tokens i inList inParagraph out =
     tokensToHtml_loop tokens (i + 1) False (\<not> closes_after tokens i True)
       (out @ (if inList then ''</ul>'' @ [NL] else []) @ (if inParagraph then [] else ''<p>'') @
        escapeHtml v @ (if closes_after tokens i True then ''</p>'' @ [NL] else []))"
  using tokensToHtml_loop_round [OF assms(1), of "escapeHtml v" inList inParagraph out]
  by (simp add: assms(2) list_piece_def para_after_list_def para_piece_def para_at_token_def
      isBlockElement_def)

lemma escapeHtml_append: "escapeHtml (x @ y) = escapeHtml x @ escapeHtml y"
  by (induction x) auto

lemma escapeHtml_no_tag: "CHR ''<'' \<notin> set (escapeHtml v)"
  by (induction v) auto

lemma trim_newlines_snoc:
  "s = [] \<or> last s \<noteq> NL \<Longrightarrow> trim_newlines (s @ [NL]) = s"
  by (subst trim_newlines.simps) (simp add: trim_newlines_keep)

text \<open>The token list and the output when a first token is followed by a final Text token.\<close>

lemma tokenize_two:
  assumes "get_next_token (cursor [] s) = (Tok t v, lx)"
    and "get_next_token lx = (Tok t' v', cursor s [])"
  shows "tokenize s = Some [Tok t v, Tok t' v']"
proof -
  have "tokens_from (cursor s []) (Tok t' v') = [Tok t' v']"
    using tokens_from_step [of "Tok t' v'" "cursor s []" createEOF "cursor s []"]
    by (simp add: get_next_token_end tokens_from_def parse_loop_done)
  then have "tokens_from lx (Tok t v) = [Tok t v, Tok t' v']"
    using tokens_from_step [of "Tok t v" lx "Tok t' v'" "cursor s []"] assms(2) by simp
  then show ?thesis using tokenize_tokens_from [OF assms(1)] by simp
qed

lemma tokens_from_next:
  assumes "\<not> isEOF token" "get_next_token lx = (Tok t v, lx1)"
  shows "\<exists>others. tokens_from lx token = token # Tok t v # others"
proof -
  obtain token2 lx2 where nt: "get_next_token lx1 = (token2, lx2)"
    by (cases "get_next_token lx1")
  have "tokens_from lx1 (Tok t v) = Tok t v # tokens_from lx2 token2"
    using nt by (simp add: tokens_from_step)
  then show ?thesis using tokens_from_step [OF assms] by simp
qed

lemma first_TEXT_output:
  assumes "get_next_token (cursor [] s) = (Tok TEXT v, lx)"
  shows "\<exists>others out.
     tokenize s = Some (Tok TEXT v # others) \<and> parse s = Some (Inr out) \<and>
     take (length (''<p>'' @ escapeHtml v)) out = ''<p>'' @ escapeHtml v \<and>
     (lx = cursor s [] \<longrightarrow> others = [] \<and> out = ''<p>'' @ escapeHtml v @ ''</p>'' @ [NL])"
proof -
  obtain others where toks: "tokenize s = Some (Tok TEXT v # others)"
    using assms tokenize_first by blast
  obtain out where out: "tokensToHtml (Tok TEXT v # others) = Inr out"
    unfolding tokensToHtml_def using tokensToHtml_loop_returns by blast
  have parse: "parse s = Some (Inr out)" by (simp add: parse_def toks out)
  have start: "take (length (''<p>'' @ escapeHtml v)) out = ''<p>'' @ escapeHtml v"
    using out by (rule tokensToHtml_starts_with_TEXT)
  have whole: "others = [] \<and> out = ''<p>'' @ escapeHtml v @ ''</p>'' @ [NL]" if "lx = cursor s []"
  proof -
    have "tokenize s = Some [Tok TEXT v]" using assms that by (simp add: tokenize_one)
    with toks parse show ?thesis by (simp add: parse_def tokensToHtml_one_TEXT)
  qed
  show ?thesis using toks parse start whole by blast
qed

text \<open>A line of plain text before a construct that degrades to Text and ends the input.\<close>

lemma plain_then_TEXT:
  assumes "pre \<noteq> []" "\<forall>c\<in>set pre. c \<noteq> NUL \<and> c \<noteq> NL \<and> \<not> is_markdown_char c"
    and "is_markdown_char m"
    and "get_next_token (cursor (pre @ sep) (m # r)) = (Tok TEXT v, cursor (pre @ sep @ m # r) [])"
    and "sep = [] \<or> sep = [NL]"
  shows "parse (pre @ sep @ m # r) = Some (Inr (''<p>'' @ escapeHtml pre @ escapeHtml v @ ''</p>'' @ [NL]))"
proof -
  define s where "s = pre @ sep @ m # r"
  have run_m: "text_run (m # r) = []" using assms(3) by simp
  have run_sep: "text_run (sep @ m # r) = sep"
    using assms(3,5) by (auto simp: is_markdown_char_def)
  have run: "text_run s = pre @ sep"
    unfolding s_def using assms(2) run_sep by (simp add: text_run_plain_append)
  have last_pre: "last pre \<noteq> NL" using assms(1,2) last_in_set [of pre] by blast
  have trim: "trim_newlines (pre @ sep) = pre"
    using assms(5) last_pre assms(1) by (auto simp: trim_newlines_snoc trim_newlines_keep)
  have hd_pre: "hd pre \<noteq> NUL" "hd pre \<noteq> NL" "\<not> is_markdown_char (hd pre)"
    using assms(1,2) hd_in_set [of pre] by blast+
  have "get_next_token (cursor [] s) =
      (Tok TEXT (trim_newlines (text_run s)), cursor ([] @ text_run s) (drop (length (text_run s)) s))"
    by (rule get_next_token_text) (use assms(1) hd_pre in \<open>simp_all add: s_def\<close>)
  then have first: "get_next_token (cursor [] s) = (Tok TEXT pre, cursor (pre @ sep) (m # r))"
    unfolding run trim by (simp add: s_def)
  have "tokenize s = Some [Tok TEXT pre, Tok TEXT v]"
    using first by (rule tokenize_two) (use assms(4) in \<open>simp add: s_def\<close>)
  then show ?thesis
    unfolding s_def [symmetric] by (simp add: parse_def tokensToHtml_two_TEXT)
qed

section \<open>A heading without a space\<close>

text \<open>
  C8, as stated: a line that begins with a run of \<^verbatim>\<open>#\<close> with no white space after it gives
  a Text token.  The lexer reads a line on its own only where it takes a token at the
  first byte of the line.  The bracketed text of a link runs over line ends, and a dash
  takes a newline for the white space after it, so that such a line can be part of a Link
  or a ListItem token, with no Text token at all.
\<close>

theorem heading_without_space_counterexample:
  "tokenize (''[a'' @ [NL] @ ''#Invalid](u)'') = Some [Tok LINK (''a'' @ [NL] @ ''#Invalid|u'')] \<and>
   parse (''[a'' @ [NL] @ ''#Invalid](u)'') =
     Some (Inr (''<p><a href='' @ [DQUOTE] @ ''u'' @ [DQUOTE] @ ''>a'' @ [NL] @ ''#Invalid</a></p>'' @ [NL])) \<and>
   tokenize (''-'' @ [NL] @ ''#Invalid'') = Some [Tok LIST ''#Invalid''] \<and>
   parse (''-'' @ [NL] @ ''#Invalid'') =
     Some (Inr (''<ul>'' @ [NL] @ ''<li>#Invalid</li>'' @ [NL] @ ''</ul>'' @ [NL]))"
  by code_simp

text \<open>
  C8, amended: where the lexer takes its next token at a line that begins with a run of
  \<^verbatim>\<open>#\<close> followed by the end of the input or by a byte that is neither \<^verbatim>\<open>#\<close> nor white space
  (after any text \<open>b\<close> already read, and any newlines it skips first), the token is a Text
  token with the run and the rest of the line, and the cursor is left after the line and its
  newline; the loop of \<^verbatim>\<open>parse\<close> appends this token after the token it has in hand; the
  rendering loop writes the escaped text of the token, after \<^verbatim>\<open><p>\<close> unless a paragraph is
  open, and this text holds no \<^verbatim>\<open><\<close>, so no tag.  When the line is the first of the input,
  the output starts with \<^verbatim>\<open><p>\<close> and the text, and is that paragraph alone when the line is
  the whole input; when it is the last line and follows one line of plain text, the output
  is one paragraph with both texts.
\<close>

theorem heading_without_space:
  assumes "0 < n" and "rest = [] \<or> (hd rest \<noteq> CHR ''#'' \<and> \<not> isspace (hd rest))"
  shows
    "get_next_token (cursor b (replicate k NL @ replicate n (CHR ''#'') @ rest)) =
       (Tok TEXT (replicate n (CHR ''#'') @ takeWhile (in_span NL) rest),
        skip_line_end (cursor (b @ replicate k NL @ replicate n (CHR ''#'') @ takeWhile (in_span NL) rest)
          (dropWhile (in_span NL) rest))) \<and>
     (\<forall>token. \<not> isEOF token \<longrightarrow>
        (\<exists>others. tokens_from (cursor b (replicate k NL @ replicate n (CHR ''#'') @ rest)) token =
           token # Tok TEXT (replicate n (CHR ''#'') @ takeWhile (in_span NL) rest) # others)) \<and>
     (\<forall>tokens i inList inParagraph out.
        i < length tokens \<and> tokens ! i = Tok TEXT (replicate n (CHR ''#'') @ takeWhile (in_span NL) rest) \<longrightarrow>
        tokensToHtml_loop tokens i inList inParagraph out =
          tokensToHtml_loop tokens (i + 1) False (\<not> closes_after tokens i True)
            (out @ (if inList then ''</ul>'' @ [NL] else []) @ (if inParagraph then [] else ''<p>'') @
             escapeHtml (replicate n (CHR ''#'') @ takeWhile (in_span NL) rest) @
             (if closes_after tokens i True then ''</p>'' @ [NL] else []))) \<and>
     CHR ''<'' \<notin> set (escapeHtml (replicate n (CHR ''#'') @ takeWhile (in_span NL) rest)) \<and>
     (\<exists>others out.
        tokenize (replicate k NL @ replicate n (CHR ''#'') @ rest) =
          Some (Tok TEXT (replicate n (CHR ''#'') @ takeWhile (in_span NL) rest) # others) \<and>
        parse (replicate k NL @ replicate n (CHR ''#'') @ rest) = Some (Inr out) \<and>
        take (length (''<p>'' @ escapeHtml (replicate n (CHR ''#'') @ takeWhile (in_span NL) rest))) out =
          ''<p>'' @ escapeHtml (replicate n (CHR ''#'') @ takeWhile (in_span NL) rest) \<and>
        ((\<forall>c\<in>set rest. in_span NL c) \<longrightarrow>
           others = [] \<and>
           out = ''<p>'' @ escapeHtml (replicate n (CHR ''#'') @ rest) @ ''</p>'' @ [NL])) \<and>
     (\<forall>pre. pre \<noteq> [] \<and> (\<forall>c\<in>set pre. c \<noteq> NUL \<and> c \<noteq> NL \<and> \<not> is_markdown_char c) \<and>
        (\<forall>c\<in>set rest. in_span NL c) \<longrightarrow>
        parse (pre @ [NL] @ replicate n (CHR ''#'') @ rest) =
          Some (Inr (''<p>'' @ escapeHtml pre @ escapeHtml (replicate n (CHR ''#'') @ rest) @ ''</p>'' @ [NL])))"
proof -
  define hashes where "hashes = replicate n (CHR ''#'')"
  define line where "line = hashes @ takeWhile (in_span NL) rest"
  obtain m where n: "n = Suc m" using assms(1) by (cases n) auto
  have hashes: "hashes = CHR ''#'' # replicate m (CHR ''#'')" by (simp add: hashes_def n)
  have at: "get_next_token (cursor b' (hashes @ rest)) =
      (Tok TEXT line, skip_line_end (cursor (b' @ line) (dropWhile (in_span NL) rest)))" for b'
    unfolding hashes_def line_def using heading_fallback_at [OF assms, of b'] by simp
  have step: "get_next_token (cursor b' (replicate j NL @ hashes @ rest)) =
      (Tok TEXT line, skip_line_end (cursor (b' @ replicate j NL @ line) (dropWhile (in_span NL) rest)))"
    for b' j
    using get_next_token_newlines [of "CHR ''#''" b' j "replicate m (CHR ''#'') @ rest"]
      at [of "b' @ replicate j NL"]
    by (simp add: hashes)
  have loop: "\<exists>others. tokens_from (cursor b (replicate k NL @ hashes @ rest)) token =
      token # Tok TEXT line # others" if "\<not> isEOF token" for token
    using that step by (rule tokens_from_next)
  have round: "tokensToHtml_loop tokens i inList inParagraph out =
      tokensToHtml_loop tokens (i + 1) False (\<not> closes_after tokens i True)
        (out @ (if inList then ''</ul>'' @ [NL] else []) @ (if inParagraph then [] else ''<p>'') @
         escapeHtml line @ (if closes_after tokens i True then ''</p>'' @ [NL] else []))"
    if "i < length tokens \<and> tokens ! i = Tok TEXT line" for tokens i inList inParagraph out
    using that by (intro tokensToHtml_loop_TEXT) simp_all
  have notag: "CHR ''<'' \<notin> set (escapeHtml line)" by (rule escapeHtml_no_tag)
  have whole_line: "line = hashes @ rest" if all: "\<forall>c\<in>set rest. in_span NL c"
    by (simp add: line_def takeWhile_all [OF all])
  have line_end: "skip_line_end (cursor (b' @ line) (dropWhile (in_span NL) rest)) =
      cursor (b' @ hashes @ rest) []"
    if all: "\<forall>c\<in>set rest. in_span NL c" for b'
    by (simp add: line_def skip_line_end_cursor_other takeWhile_all [OF all] dropWhile_all [OF all])
  obtain others out where first:
    "tokenize (replicate k NL @ hashes @ rest) = Some (Tok TEXT line # others)"
    "parse (replicate k NL @ hashes @ rest) = Some (Inr out)"
    "take (length (''<p>'' @ escapeHtml line)) out = ''<p>'' @ escapeHtml line"
    "skip_line_end (cursor ([] @ replicate k NL @ line) (dropWhile (in_span NL) rest)) =
       cursor (replicate k NL @ hashes @ rest) [] \<longrightarrow>
     others = [] \<and> out = ''<p>'' @ escapeHtml line @ ''</p>'' @ [NL]"
    using first_TEXT_output [OF step [of "[]" k]] by blast
  have alone: "others = [] \<and> out = ''<p>'' @ escapeHtml (hashes @ rest) @ ''</p>'' @ [NL]"
    if all: "\<forall>c\<in>set rest. in_span NL c"
  proof -
    have l: "line = hashes @ rest" using all by (rule whole_line)
    have "skip_line_end (cursor ([] @ replicate k NL @ line) (dropWhile (in_span NL) rest)) =
        cursor (replicate k NL @ hashes @ rest) []"
      using line_end [OF all, of "replicate k NL"] by simp
    with first(4) have "others = [] \<and> out = ''<p>'' @ escapeHtml line @ ''</p>'' @ [NL]"
      by (rule mp)
    then show ?thesis by (simp add: l)
  qed
  have after_text: "parse (pre @ [NL] @ hashes @ rest) =
      Some (Inr (''<p>'' @ escapeHtml pre @ escapeHtml (hashes @ rest) @ ''</p>'' @ [NL]))"
    if pre: "pre \<noteq> [] \<and> (\<forall>c\<in>set pre. c \<noteq> NUL \<and> c \<noteq> NL \<and> \<not> is_markdown_char c) \<and>
      (\<forall>c\<in>set rest. in_span NL c)" for pre
  proof -
    have all: "\<forall>c\<in>set rest. in_span NL c" using pre by blast
    have tok: "get_next_token (cursor (pre @ [NL]) (CHR ''#'' # replicate m (CHR ''#'') @ rest)) =
        (Tok TEXT (hashes @ rest),
         cursor (pre @ [NL] @ CHR ''#'' # replicate m (CHR ''#'') @ rest) [])"
      using at [of "pre @ [NL]"] whole_line [OF all] line_end [OF all, of "pre @ [NL]"]
      by (simp add: hashes)
    have "parse (pre @ [NL] @ CHR ''#'' # replicate m (CHR ''#'') @ rest) =
        Some (Inr (''<p>'' @ escapeHtml pre @ escapeHtml (hashes @ rest) @ ''</p>'' @ [NL]))"
      by (rule plain_then_TEXT) (use pre tok in \<open>simp_all add: is_markdown_char_def\<close>)
    then show ?thesis by (simp add: hashes)
  qed
  show ?thesis
    unfolding hashes_def [symmetric] line_def [symmetric]
    using step [of b k] loop round notag first(1-3) alone after_text by blast
qed

theorem heading_without_space_witness:
  "get_next_token (cursor (''# Title'' @ [NL]) ''#Invalid'') =
     (Tok TEXT ''#Invalid'', cursor (''# Title'' @ [NL] @ ''#Invalid'') []) \<and>
   tokenize ''#Invalid'' = Some [Tok TEXT ''#Invalid''] \<and>
   parse ''#Invalid'' = Some (Inr (''<p>#Invalid</p>'' @ [NL])) \<and>
   parse (''intro'' @ [NL] @ ''#Invalid'') = Some (Inr (''<p>intro#Invalid</p>'' @ [NL]))"
proof -
  have n: "0 < (1::nat)" by simp
  have r: "''Invalid'' = [] \<or> (hd ''Invalid'' \<noteq> CHR ''#'' \<and> \<not> isspace (hd ''Invalid''))"
    by (simp add: isspace_def)
  have all: "\<forall>c\<in>set ''Invalid''. in_span NL c" by (simp add: in_span_def)
  have pre: "''intro'' \<noteq> [] \<and> (\<forall>c\<in>set ''intro''. c \<noteq> NUL \<and> c \<noteq> NL \<and> \<not> is_markdown_char c) \<and>
      (\<forall>c\<in>set ''Invalid''. in_span NL c)"
    by (simp add: is_markdown_char_def in_span_def)
  have tw: "takeWhile (in_span NL) ''Invalid'' = ''Invalid''" using all by (rule takeWhile_all)
  have dw: "dropWhile (in_span NL) ''Invalid'' = []" using all by (rule dropWhile_all)
  note later = heading_without_space [OF n r, of "''# Title'' @ [NL]" 0]
  note first = heading_without_space [OF n r, of "[]" 0]
  have 1: "get_next_token (cursor (''# Title'' @ [NL]) ''#Invalid'') =
     (Tok TEXT ''#Invalid'', cursor (''# Title'' @ [NL] @ ''#Invalid'') [])"
    using later [THEN conjunct1] unfolding tw dw by (simp add: skip_line_end_cursor_other)
  have 2: "tokenize ''#Invalid'' = Some [Tok TEXT ''#Invalid''] \<and>
     parse ''#Invalid'' = Some (Inr (''<p>#Invalid</p>'' @ [NL]))"
    using first [THEN conjunct2, THEN conjunct2, THEN conjunct2, THEN conjunct2, THEN conjunct1] all
    unfolding tw by auto
  have 3: "parse (''intro'' @ [NL] @ ''#Invalid'') = Some (Inr (''<p>intro#Invalid</p>'' @ [NL]))"
    using first [THEN conjunct2, THEN conjunct2, THEN conjunct2, THEN conjunct2, THEN conjunct2,
        rule_format, OF pre]
    by simp
  show ?thesis using 1 2 3 by blast
qed

text \<open>A worked input: the line after a heading line.\<close>

lemma heading_line_after_heading:
  "tokenize (''# Title'' @ [NL] @ ''#Invalid'') = Some [Tok H1 ''Title'', Tok TEXT ''#Invalid''] \<and>
   parse (''# Title'' @ [NL] @ ''#Invalid'') =
     Some (Inr (''<h1>Title</h1>'' @ [NL] @ ''<p>#Invalid</p>'' @ [NL]))"
  by code_simp

section \<open>A link whose address is not closed\<close>

lemma bracket_scan_balanced:
  "balanced_from d t \<Longrightarrow> NUL \<notin> set t \<Longrightarrow> 1 \<le> d \<Longrightarrow>
   bracket_scan (t @ CHR '']'' # r) d = (t @ '']'', 0)"
proof (induction t arbitrary: d rule: length_induct)
  case (1 t)
  show ?case
  proof (cases t)
    case Nil
    then show ?thesis using "1.prems" by simp
  next
    case (Cons c t')
    have nz: "c \<noteq> NUL" "NUL \<notin> set t'" using "1.prems"(2) Cons by auto
    show ?thesis
    proof (cases "c = BACKSLASH \<and> take 1 t' = ''[''")
      case True
      then obtain t2 where t': "t' = CHR ''['' # t2" by (cases t') auto
      have bal: "balanced_from d t2" using "1.prems"(1) True by (simp add: Cons t')
      have "bracket_scan (t2 @ CHR '']'' # r) d = (t2 @ '']'', 0)"
        using "1.IH" bal nz(2) "1.prems"(3) by (simp add: Cons t')
      then show ?thesis using True nz by (simp add: Cons t')
    next
      case False
      then have noesc: "\<not> (c = BACKSLASH \<and> take 1 (t' @ CHR '']'' # r) = ''['')"
        by (cases t') auto
      have ih: "balanced_from d' t' \<Longrightarrow> 1 \<le> d' \<Longrightarrow>
          bracket_scan (t' @ CHR '']'' # r) d' = (t' @ '']'', 0)" for d'
        using "1.IH" nz(2) by (simp add: Cons)
      consider (opn) "c = CHR ''[''" | (cls) "c = CHR '']''" | (oth) "c \<noteq> CHR ''[''" "c \<noteq> CHR '']''"
        by blast
      then show ?thesis
      proof cases
        case opn
        then have "balanced_from (d + 1) t'" using "1.prems"(1) False by (simp add: Cons)
        then have "bracket_scan (t' @ CHR '']'' # r) (d + 1) = (t' @ '']'', 0)"
          using ih "1.prems"(3) by simp
        then show ?thesis using opn by (simp add: Cons)
      next
        case cls
        then have bal: "d \<noteq> 1" "balanced_from (d - 1) t'"
          using "1.prems"(1) False by (simp_all add: Cons)
        then have "bracket_scan (t' @ CHR '']'' # r) (d - 1) = (t' @ '']'', 0)"
          using ih "1.prems"(3) by simp
        then show ?thesis using cls bal(1) by (simp add: Cons)
      next
        case oth
        then have "balanced_from d t'" using "1.prems"(1) False by (simp add: Cons)
        then have "bracket_scan (t' @ CHR '']'' # r) d = (t' @ '']'', 0)"
          using ih "1.prems"(3) by simp
        then show ?thesis using oth nz(1) noesc by (auto simp: Cons)
      qed
    qed
  qed
qed

lemma handle_link_unclosed:
  assumes "balanced_from 1 t" "NUL \<notin> set t"
    and "\<forall>c\<in>set url. in_span (CHR '')'') c"
    and "rest = [] \<or> hd rest = NL \<or> hd rest = NUL"
  shows "handle_link (cursor b (''['' @ t @ '']('' @ url @ rest)) =
     (Tok TEXT (''['' @ unescape t @ '']('' @ url), cursor (b @ ''['' @ t @ '']('' @ url) rest)"
proof -
  define r where "r = t @ CHR '']'' # CHR ''('' # url @ rest"
  have stop: "rest = [] \<or> \<not> in_span (CHR '')'') (hd rest)"
    using assms(4) by (auto simp: in_span_def)
  have scan: "bracket_scan r 1 = (t @ '']'', 0)"
    unfolding r_def using assms(1,2) by (intro bracket_scan_balanced) simp_all
  have after: "drop (length (t @ '']'')) r = CHR ''('' # url @ rest" by (simp add: r_def)
  have tw: "takeWhile (in_span (CHR '')'')) (url @ rest) = url"
    using assms(3) stop by (rule takeWhile_stops)
  have dw: "dropWhile (in_span (CHR '')'')) (url @ rest) = rest"
    using assms(3) stop by (rule dropWhile_stops)
  have open_rest: "take 1 rest \<noteq> '')''" using assms(4) by (cases rest) auto
  have un: "unescape (t @ '']'') = unescape t @ '']''" by (rule unescape_snoc) simp
  have "handle_link (cursor b (CHR ''['' # r)) =
      (Tok TEXT (CHR ''['' # unescape (t @ '']'') @ ''('' @ url),
       cursor (b @ CHR ''['' # (t @ '']'') @ ''('' @ url) rest)"
    unfolding handle_link_cursor Let_def scan fst_conv snd_conv after
    using open_rest by (simp add: tw dw)
  then show ?thesis by (simp add: r_def un)
qed

text \<open>
  C9, as stated: a link with balanced bracketed text and an address that is not closed
  gives a Text token with the source text.  The payload of a ListItem (and of a heading)
  is the raw rest of its line, in which no link is looked for, so that no Text token is
  emitted there; and an escaped bracket in the bracketed text is stored without its
  backslash, so that the payload is not the source text.
\<close>

theorem link_without_closing_paren_counterexample:
  "tokenize ''- [a](http://x'' = Some [Tok LIST ''[a](http://x''] \<and>
   parse ''- [a](http://x'' =
     Some (Inr (''<ul>'' @ [NL] @ ''<li>[a](http://x</li>'' @ [NL] @ ''</ul>'' @ [NL])) \<and>
   tokenize (''[a'' @ [BACKSLASH] @ ''[b](http://x'') = Some [Tok TEXT ''[a[b](http://x''] \<and>
   ''[a[b](http://x'' \<noteq> ''[a'' @ [BACKSLASH] @ ''[b](http://x''"
  by code_simp

text \<open>
  C9, amended: where the lexer takes its next token at a link (after any text \<open>b\<close> already
  read, and any newlines it skips first) whose bracketed text \<open>t\<close> is balanced, an escaped
  \<^verbatim>\<open>[\<close> not counting, and has no byte 0, followed by \<^verbatim>\<open>(\<close> and an address that reaches the end
  of the line or of the input without a \<^verbatim>\<open>)\<close>, the token is a Text token that holds
  \<^verbatim>\<open>[\<close>, the text \<open>t\<close> with every escaped \<^verbatim>\<open>[\<close> stored without its backslash, \<^verbatim>\<open>](\<close> and the
  address, and the cursor is left after the address; the loop of \<^verbatim>\<open>parse\<close> appends this
  token after the token it has in hand; the rendering loop writes the escaped text of the
  token, after \<^verbatim>\<open><p>\<close> unless a paragraph is open, and this text holds no \<^verbatim>\<open><\<close>, so no tag.
  When the link starts the input, the output starts with \<^verbatim>\<open><p>\<close> and the text, and is that
  paragraph alone when the input ends with the address; when the link ends the input and
  follows plain text on its line, the output is one paragraph with both texts.
\<close>

theorem link_without_closing_paren:
  assumes "balanced_from 1 t" "NUL \<notin> set t"
    and "\<forall>c\<in>set url. in_span (CHR '')'') c"
    and "rest = [] \<or> hd rest = NL \<or> hd rest = NUL"
  shows
    "get_next_token (cursor b (replicate k NL @ ''['' @ t @ '']('' @ url @ rest)) =
       (Tok TEXT (''['' @ unescape t @ '']('' @ url),
        cursor (b @ replicate k NL @ ''['' @ t @ '']('' @ url) rest) \<and>
     (\<forall>token. \<not> isEOF token \<longrightarrow>
        (\<exists>others. tokens_from (cursor b (replicate k NL @ ''['' @ t @ '']('' @ url @ rest)) token =
           token # Tok TEXT (''['' @ unescape t @ '']('' @ url) # others)) \<and>
     (\<forall>tokens i inList inParagraph out.
        i < length tokens \<and> tokens ! i = Tok TEXT (''['' @ unescape t @ '']('' @ url) \<longrightarrow>
        tokensToHtml_loop tokens i inList inParagraph out =
          tokensToHtml_loop tokens (i + 1) False (\<not> closes_after tokens i True)
            (out @ (if inList then ''</ul>'' @ [NL] else []) @ (if inParagraph then [] else ''<p>'') @
             escapeHtml (''['' @ unescape t @ '']('' @ url) @
             (if closes_after tokens i True then ''</p>'' @ [NL] else []))) \<and>
     CHR ''<'' \<notin> set (escapeHtml (''['' @ unescape t @ '']('' @ url)) \<and>
     (\<exists>others out.
        tokenize (replicate k NL @ ''['' @ t @ '']('' @ url @ rest) =
          Some (Tok TEXT (''['' @ unescape t @ '']('' @ url) # others) \<and>
        parse (replicate k NL @ ''['' @ t @ '']('' @ url @ rest) = Some (Inr out) \<and>
        take (length (''<p>'' @ escapeHtml (''['' @ unescape t @ '']('' @ url))) out =
          ''<p>'' @ escapeHtml (''['' @ unescape t @ '']('' @ url) \<and>
        (rest = [] \<longrightarrow>
           others = [] \<and>
           out = ''<p>'' @ escapeHtml (''['' @ unescape t @ '']('' @ url) @ ''</p>'' @ [NL])) \<and>
     (\<forall>pre. pre \<noteq> [] \<and> (\<forall>c\<in>set pre. c \<noteq> NUL \<and> c \<noteq> NL \<and> \<not> is_markdown_char c) \<and> rest = [] \<longrightarrow>
        parse (pre @ ''['' @ t @ '']('' @ url) =
          Some (Inr (''<p>'' @ escapeHtml pre @ escapeHtml (''['' @ unescape t @ '']('' @ url) @
                     ''</p>'' @ [NL])))"
proof -
  define link where "link = t @ '']('' @ url"
  define payload where "payload = ''['' @ unescape t @ '']('' @ url"
  have at: "get_next_token (cursor b' (CHR ''['' # link @ rest)) =
      (Tok TEXT payload, cursor (b' @ CHR ''['' # link) rest)" for b'
    using handle_link_unclosed [OF assms, of b']
    by (simp add: get_next_token_dispatch link_def payload_def)
  have step: "get_next_token (cursor b' (replicate j NL @ CHR ''['' # link @ rest)) =
      (Tok TEXT payload, cursor (b' @ replicate j NL @ CHR ''['' # link) rest)" for b' j
    using get_next_token_newlines [of "CHR ''[''" b' j "link @ rest"] at [of "b' @ replicate j NL"]
    by simp
  have loop: "\<exists>others. tokens_from (cursor b (replicate k NL @ CHR ''['' # link @ rest)) token =
      token # Tok TEXT payload # others" if "\<not> isEOF token" for token
    using that step by (rule tokens_from_next)
  have round: "tokensToHtml_loop tokens i inList inParagraph out =
      tokensToHtml_loop tokens (i + 1) False (\<not> closes_after tokens i True)
        (out @ (if inList then ''</ul>'' @ [NL] else []) @ (if inParagraph then [] else ''<p>'') @
         escapeHtml payload @ (if closes_after tokens i True then ''</p>'' @ [NL] else []))"
    if "i < length tokens \<and> tokens ! i = Tok TEXT payload" for tokens i inList inParagraph out
    using that by (intro tokensToHtml_loop_TEXT) simp_all
  have notag: "CHR ''<'' \<notin> set (escapeHtml payload)" by (rule escapeHtml_no_tag)
  obtain others out where first:
    "tokenize (replicate k NL @ CHR ''['' # link @ rest) = Some (Tok TEXT payload # others)"
    "parse (replicate k NL @ CHR ''['' # link @ rest) = Some (Inr out)"
    "take (length (''<p>'' @ escapeHtml payload)) out = ''<p>'' @ escapeHtml payload"
    "cursor ([] @ replicate k NL @ CHR ''['' # link) rest =
       cursor (replicate k NL @ CHR ''['' # link @ rest) [] \<longrightarrow>
     others = [] \<and> out = ''<p>'' @ escapeHtml payload @ ''</p>'' @ [NL]"
    using first_TEXT_output [OF step [of "[]" k]] by blast
  have alone: "others = [] \<and> out = ''<p>'' @ escapeHtml payload @ ''</p>'' @ [NL]" if "rest = []"
    using first(4) that by simp
  have after_text: "parse (pre @ CHR ''['' # link) =
      Some (Inr (''<p>'' @ escapeHtml pre @ escapeHtml payload @ ''</p>'' @ [NL]))"
    if pre: "pre \<noteq> [] \<and> (\<forall>c\<in>set pre. c \<noteq> NUL \<and> c \<noteq> NL \<and> \<not> is_markdown_char c) \<and> rest = []"
    for pre
  proof -
    have tok: "get_next_token (cursor (pre @ []) (CHR ''['' # link)) =
        (Tok TEXT payload, cursor (pre @ [] @ CHR ''['' # link) [])"
      using at [of pre] pre by simp
    have "parse (pre @ [] @ CHR ''['' # link) =
        Some (Inr (''<p>'' @ escapeHtml pre @ escapeHtml payload @ ''</p>'' @ [NL]))"
      by (rule plain_then_TEXT [OF _ _ _ tok]) (use pre in \<open>simp_all add: is_markdown_char_def\<close>)
    then show ?thesis by simp
  qed
  have "get_next_token (cursor b (replicate k NL @ CHR ''['' # link @ rest)) =
       (Tok TEXT payload, cursor (b @ replicate k NL @ CHR ''['' # link) rest) \<and>
     (\<forall>token. \<not> isEOF token \<longrightarrow>
        (\<exists>others. tokens_from (cursor b (replicate k NL @ CHR ''['' # link @ rest)) token =
           token # Tok TEXT payload # others)) \<and>
     (\<forall>tokens i inList inParagraph out.
        i < length tokens \<and> tokens ! i = Tok TEXT payload \<longrightarrow>
        tokensToHtml_loop tokens i inList inParagraph out =
          tokensToHtml_loop tokens (i + 1) False (\<not> closes_after tokens i True)
            (out @ (if inList then ''</ul>'' @ [NL] else []) @ (if inParagraph then [] else ''<p>'') @
             escapeHtml payload @
             (if closes_after tokens i True then ''</p>'' @ [NL] else []))) \<and>
     CHR ''<'' \<notin> set (escapeHtml payload) \<and>
     (\<exists>others out.
        tokenize (replicate k NL @ CHR ''['' # link @ rest) = Some (Tok TEXT payload # others) \<and>
        parse (replicate k NL @ CHR ''['' # link @ rest) = Some (Inr out) \<and>
        take (length (''<p>'' @ escapeHtml payload)) out = ''<p>'' @ escapeHtml payload \<and>
        (rest = [] \<longrightarrow> others = [] \<and> out = ''<p>'' @ escapeHtml payload @ ''</p>'' @ [NL])) \<and>
     (\<forall>pre. pre \<noteq> [] \<and> (\<forall>c\<in>set pre. c \<noteq> NUL \<and> c \<noteq> NL \<and> \<not> is_markdown_char c) \<and> rest = [] \<longrightarrow>
        parse (pre @ CHR ''['' # link) =
          Some (Inr (''<p>'' @ escapeHtml pre @ escapeHtml payload @ ''</p>'' @ [NL])))"
    using step [of b k] loop round notag first(1-3) alone after_text by blast
  then show ?thesis by (simp add: link_def payload_def)
qed

theorem link_without_closing_paren_witness:
  "get_next_token (cursor ''see '' ''[a](http://x'') =
     (Tok TEXT ''[a](http://x'', cursor ''see [a](http://x'' []) \<and>
   tokenize ''[a](http://x'' = Some [Tok TEXT ''[a](http://x''] \<and>
   parse ''[a](http://x'' = Some (Inr (''<p>[a](http://x</p>'' @ [NL])) \<and>
   parse ''see [a](http://x'' = Some (Inr (''<p>see [a](http://x</p>'' @ [NL]))"
proof -
  have t: "balanced_from 1 ''a''" "NUL \<notin> set ''a''" by simp_all
  have u: "\<forall>c\<in>set ''http://x''. in_span (CHR '')'') c" by (simp add: in_span_def)
  have e: "([]::string) = [] \<or> hd ([]::string) = NL \<or> hd ([]::string) = NUL" by simp
  have pre: "''see '' \<noteq> [] \<and> (\<forall>c\<in>set ''see ''. c \<noteq> NUL \<and> c \<noteq> NL \<and> \<not> is_markdown_char c) \<and>
      ([]::string) = []"
    by (simp add: is_markdown_char_def)
  note later = link_without_closing_paren [OF t u e, of "''see ''" 0]
  note first = link_without_closing_paren [OF t u e, of "[]" 0]
  have 1: "get_next_token (cursor ''see '' ''[a](http://x'') =
     (Tok TEXT ''[a](http://x'', cursor ''see [a](http://x'' [])"
    using later [THEN conjunct1] by simp
  have 2: "tokenize ''[a](http://x'' = Some [Tok TEXT ''[a](http://x''] \<and>
     parse ''[a](http://x'' = Some (Inr (''<p>[a](http://x</p>'' @ [NL]))"
    using first [THEN conjunct2, THEN conjunct2, THEN conjunct2, THEN conjunct2, THEN conjunct1]
    by auto
  have 3: "parse ''see [a](http://x'' = Some (Inr (''<p>see [a](http://x</p>'' @ [NL]))"
    using first [THEN conjunct2, THEN conjunct2, THEN conjunct2, THEN conjunct2, THEN conjunct2,
        rule_format, OF pre]
    by simp
  show ?thesis using 1 2 3 by blast
qed

section \<open>A malformed construct\<close>

text \<open>Only an escaped bracket is stored otherwise than it is written.\<close>

lemma unescape_id: "BACKSLASH \<notin> set x \<Longrightarrow> unescape x = x"
  by (induction x rule: unescape.induct) auto

text \<open>
  C2, as stated: a degraded construct keeps its source bytes.  Inside link brackets the
  escape \<^verbatim>\<open>\[\<close> is stored as \<^verbatim>\<open>[\<close>, and the Text token of a link that never closes holds
  the stored text: the backslash is gone.
\<close>

theorem degraded_link_counterexample:
  "tokenize (''[a'' @ [BACKSLASH] @ ''[b'') = Some [Tok TEXT ''[a[b''] \<and>
   ''[a[b'' \<noteq> ''[a'' @ [BACKSLASH] @ ''[b''"
  by code_simp

text \<open>
  C2, amended: where the lexer takes its next token at a marker byte \<open>c\<close> (after any text
  \<open>b\<close> already read, and any newlines it skips first), the token is not the end marker, and
  it is a Text token exactly when the construct that starts there is malformed.  For a
  malformed construct the lexer has then read a non-empty prefix \<open>consumed\<close> of the input
  and stands right after it, and the payload of the Text token is \<open>consumed\<close>, byte for
  byte, with two differences: inside the brackets of a link or image every escaped \<^verbatim>\<open>[\<close> is
  stored without its backslash, and the newline that ends a heading or list line is read
  but not stored.  A bold opener whose text stops at a single star is left out of the
  second part.
\<close>

theorem degraded_text_keeps_source:
  assumes "is_markdown_char c"
    and "get_next_token (cursor b (replicate k NL @ c # r)) = (tok, lx')"
  shows "\<not> isEOF tok \<and>
     ((getType tok = TEXT) = malformed (c # r)) \<and>
     (malformed (c # r) \<and> \<not> stops_at_star (c # r) \<longrightarrow>
        (\<exists>consumed rest.
           consumed \<noteq> [] \<and> c # r = consumed @ rest \<and>
           lx' = cursor (b @ replicate k NL @ consumed) rest \<and>
           tok = Tok TEXT (shown (c # r) consumed)))"
proof -
  have c: "c \<noteq> NUL" "c \<noteq> NL" using assms(1) by (auto simp: is_markdown_char_def)
  have res: "get_next_token (cursor (b @ replicate k NL) (c # r)) = (tok, lx')"
    using assms(2) get_next_token_newlines [OF c, of b k r] by simp
  note facts = next_token_degrades [OF assms(1), where b = "b @ replicate k NL" and r = r, unfolded res]
  have "\<exists>consumed rest.
      consumed \<noteq> [] \<and> c # r = consumed @ rest \<and>
      lx' = cursor (b @ replicate k NL @ consumed) rest \<and>
      tok = Tok TEXT (shown (c # r) consumed)"
    if "malformed (c # r) \<and> \<not> stops_at_star (c # r)"
    using facts(3) that unfolding degrades_def by auto
  then show ?thesis using facts(1,2) by simp
qed

theorem degraded_text_keeps_source_witness:
  "is_markdown_char (CHR ''['') \<and>
   malformed (''[a'' @ [BACKSLASH] @ ''[b](x'' @ [BACKSLASH] @ ''[y'') \<and>
   \<not> stops_at_star (''[a'' @ [BACKSLASH] @ ''[b](x'' @ [BACKSLASH] @ ''[y'') \<and>
   get_next_token (cursor ''t'' (NL # ''[a'' @ [BACKSLASH] @ ''[b](x'' @ [BACKSLASH] @ ''[y'')) =
     (Tok TEXT (''[a[b](x'' @ [BACKSLASH] @ ''[y''),
      cursor (''t'' @ NL # ''[a'' @ [BACKSLASH] @ ''[b](x'' @ [BACKSLASH] @ ''[y'') []) \<and>
   (\<exists>consumed rest.
      consumed \<noteq> [] \<and> ''[a'' @ [BACKSLASH] @ ''[b](x'' @ [BACKSLASH] @ ''[y'' = consumed @ rest \<and>
      cursor (''t'' @ NL # ''[a'' @ [BACKSLASH] @ ''[b](x'' @ [BACKSLASH] @ ''[y'') [] =
        cursor (''t'' @ [NL] @ consumed) rest \<and>
      ''[a[b](x'' @ [BACKSLASH] @ ''[y'' =
        shown (''[a'' @ [BACKSLASH] @ ''[b](x'' @ [BACKSLASH] @ ''[y'') consumed)"
proof -
  define r where "r = ''a'' @ [BACKSLASH] @ ''[b](x'' @ [BACKSLASH] @ ''[y''"
  have m: "is_markdown_char (CHR ''['')" by (simp add: is_markdown_char_def)
  have g: "get_next_token (cursor ''t'' (replicate 1 NL @ CHR ''['' # r)) =
      (Tok TEXT (''[a[b](x'' @ [BACKSLASH] @ ''[y''), cursor (''t'' @ NL # CHR ''['' # r) [])"
    unfolding r_def by code_simp
  have mal: "malformed (CHR ''['' # r) \<and> \<not> stops_at_star (CHR ''['' # r)"
    unfolding r_def by code_simp
  from degraded_text_keeps_source [OF m g] mal
  have "\<exists>consumed rest.
      consumed \<noteq> [] \<and> CHR ''['' # r = consumed @ rest \<and>
      cursor (''t'' @ NL # CHR ''['' # r) [] = cursor (''t'' @ replicate 1 NL @ consumed) rest \<and>
      Tok TEXT (''[a[b](x'' @ [BACKSLASH] @ ''[y'') = Tok TEXT (shown (CHR ''['' # r) consumed)"
    by blast
  then have "\<exists>consumed rest.
      consumed \<noteq> [] \<and> CHR ''['' # r = consumed @ rest \<and>
      cursor (''t'' @ NL # CHR ''['' # r) [] = cursor (''t'' @ [NL] @ consumed) rest \<and>
      ''[a[b](x'' @ [BACKSLASH] @ ''[y'' = shown (CHR ''['' # r) consumed"
    by simp
  with m g mal show ?thesis unfolding r_def by simp
qed

text \<open>
  The case left out above: the star that stops an unclosed bold span is put into the Text
  token and stays in the input, so it is read again.
\<close>

lemma bold_star_read_twice:
  "tokenize ''**a*'' = Some [Tok TEXT ''**a*'', Tok TEXT ''*'']"
  by code_simp

end
